theory Spec2Isabelle
  imports Complex_Main "HOL-Library.Log_Nat"
begin

section \<open>Pack current distribution of \<^verbatim>\<open>examples/run_pack_discharge_ecm.py\<close>\<close>

text \<open>
  The script builds a battery pack of \<open>n_series\<close> modules, each of \<open>n_parallel\<close> cells
  in parallel, and distributes the pack current \<open>i_pack[k]\<close> over the cells of every
  module (lines 71 to 85). The code is numpy code over float64 arrays. It is embedded
  here in exact arithmetic: a float is either a real number or a non-finite value, and
  rounding and overflow are not modelled.
\<close>

subsection \<open>Floats and numpy's arithmetic\<close>

text \<open>
  \<open>Fin x\<close> is the finite float \<open>x\<close>; \<open>NonFin\<close> stands for \<open>inf\<close>, \<open>-inf\<close> and \<open>nan\<close>.
  numpy does not raise on a division by zero: it warns and stores \<open>inf\<close> or \<open>nan\<close>.
  Sums and differences with a non-finite operand are non-finite, and so is every
  quotient whose numerator is non-finite. The one quotient the abstraction cannot
  decide, a finite numerator over a non-finite divisor (\<open>x / inf = 0\<close> but
  \<open>x / nan = nan\<close>), is given \<open>NonFin\<close>; lemma \<open>v_modules_divisor_NonFin\<close> below shows
  that the script never evaluates it.
\<close>

datatype npfloat = Fin real | NonFin

datatype py_error = IndexError | ValueError

type_synonym vec = "npfloat list"
type_synonym grid = "npfloat list list"

fun np_add :: "npfloat \<Rightarrow> npfloat \<Rightarrow> npfloat" where
  "np_add (Fin a) (Fin b) = Fin (a + b)"
| "np_add _ _ = NonFin"

fun np_sub :: "npfloat \<Rightarrow> npfloat \<Rightarrow> npfloat" where
  "np_sub (Fin a) (Fin b) = Fin (a - b)"
| "np_sub _ _ = NonFin"

fun np_div :: "npfloat \<Rightarrow> npfloat \<Rightarrow> npfloat" where
  "np_div (Fin a) (Fin b) = (if b = 0 then NonFin else Fin (a / b))"
| "np_div _ _ = NonFin"

text \<open>\<^verbatim>\<open>np.sum\<close> of a one-dimensional array; the sum of no element is \<open>0.0\<close>.\<close>

fun np_sum :: "vec \<Rightarrow> npfloat" where
  "np_sum [] = Fin 0"
| "np_sum (x # xs) = np_add x (np_sum xs)"

text \<open>An array of floats read from finite data.\<close>

definition of_reals :: "real list list \<Rightarrow> grid" where
  "of_reals g = map (map Fin) g"

text \<open>\<^verbatim>\<open>np.zeros((r, c))\<close>, \<^verbatim>\<open>np.zeros((t, r, c))\<close> and \<^verbatim>\<open>np.ones((r, c))\<close>.\<close>

definition np_zeros2 :: "nat \<Rightarrow> nat \<Rightarrow> grid" where
  "np_zeros2 r c = replicate r (replicate c (Fin 0))"

definition np_zeros3 :: "nat \<Rightarrow> nat \<Rightarrow> nat \<Rightarrow> grid list" where
  "np_zeros3 t r c = replicate t (np_zeros2 r c)"


text \<open>\<^verbatim>\<open>a.T\<close> for an array \<open>a\<close> of shape \<open>(r, c)\<close>: the result has shape \<open>(c, r)\<close>.\<close>

definition np_T :: "nat \<Rightarrow> nat \<Rightarrow> 'a list list \<Rightarrow> 'a list list" where
  "np_T r c a = map (\<lambda>j. map (\<lambda>i. a ! i ! j) [0..<r]) [0..<c]"

text \<open>\<^verbatim>\<open>a / b\<close> for two arrays of one shape, elementwise.\<close>

definition np_div2 :: "grid \<Rightarrow> grid \<Rightarrow> grid" where
  "np_div2 a b = map2 (map2 np_div) a b"

text \<open>\<^verbatim>\<open>x / b\<close> for a scalar \<open>x\<close> and a two-dimensional array \<open>b\<close>.\<close>

definition np_scalar_div2 :: "npfloat \<Rightarrow> grid \<Rightarrow> grid" where
  "np_scalar_div2 x b = map (map (np_div x)) b"

text \<open>\<^verbatim>\<open>np.sum(a, axis=1)\<close>: one sum per row.\<close>

definition np_sum_axis1 :: "grid \<Rightarrow> vec" where
  "np_sum_axis1 a = map np_sum a"

text \<open>\<^verbatim>\<open>v - x\<close> for a vector \<open>v\<close> and a scalar \<open>x\<close>; \<^verbatim>\<open>v / w\<close> for two vectors of one length.\<close>

definition np_vsub_scalar :: "vec \<Rightarrow> npfloat \<Rightarrow> vec" where
  "np_vsub_scalar v x = map (\<lambda>a. np_sub a x) v"

definition np_vdiv :: "vec \<Rightarrow> vec \<Rightarrow> vec" where
  "np_vdiv v w = map2 np_div v w"

text \<open>
  \<^verbatim>\<open>a - v\<close> for an array \<open>a\<close> of shape \<open>(c, r)\<close> and a vector \<open>v\<close> of length \<open>r\<close>:
  broadcasting subtracts \<open>v\<close> from every row of \<open>a\<close>.
\<close>

definition np_sub_bcast :: "grid \<Rightarrow> vec \<Rightarrow> grid" where
  "np_sub_bcast a v = map (\<lambda>row. map2 np_sub row v) a"

text \<open>
  \<^verbatim>\<open>a.transpose(1, 2, 0)\<close> for an array \<open>a\<close> of shape \<open>(t, r, c)\<close>: the result has shape
  \<open>(r, c, t)\<close> and holds \<open>a[k, m, p]\<close> at \<open>[m, p, k]\<close>.
\<close>

definition np_transpose_120 :: "nat \<Rightarrow> nat \<Rightarrow> nat \<Rightarrow> 'a list list list \<Rightarrow> 'a list list list" where
  "np_transpose_120 t r c a =
     map (\<lambda>m. map (\<lambda>p. map (\<lambda>k. a ! k ! m ! p) [0..<t]) [0..<c]) [0..<r]"

text \<open>The elements of a three-dimensional array in C order.\<close>

definition np_ravel3 :: "'a list list list \<Rightarrow> 'a list" where
  "np_ravel3 a = concat (concat a)"

text \<open>
  \<^verbatim>\<open>reshape(r, c)\<close> of the elements \<open>flat\<close> (C order): row \<open>i\<close> holds the elements
  \<open>i * c, ..., i * c + c - 1\<close>. numpy raises \<open>ValueError\<close> unless \<open>r * c\<close> is the number
  of elements.
\<close>

definition np_reshape2 :: "nat \<Rightarrow> nat \<Rightarrow> 'a list \<Rightarrow> py_error + 'a list list" where
  "np_reshape2 r c flat =
     (if r * c = length flat
      then Inr (map (\<lambda>i. take c (drop (i * c) flat)) [0..<r])
      else Inl ValueError)"

text \<open>\<^verbatim>\<open>a.size\<close> of a two-dimensional array.\<close>

definition np_size2 :: "'a list list \<Rightarrow> nat" where
  "np_size2 a = sum_list (map length a)"

subsection \<open>The script's variables\<close>

text \<open>
  The variables of lines 26 to 81 that the pack calculation reads or writes.
  \<open>v_modules\<close> is bound by the first iteration of the loop; before it is \<open>None\<close>.
\<close>

record script_state =
  n_parallel :: nat
  n_series :: nat
  zi :: "real list list"
  ocv_cells :: "real list list"
  r0_cells :: "real list list"
  i_pack :: "real list"
  i_cells :: "grid list"
  v_modules :: "vec option"


text \<open>
  Lines 26 to 77. \<open>zi\<close> is drawn at random, \<open>ocv_cells\<close> is \<^verbatim>\<open>np.interp\<close> of \<open>zi\<close> (an array
  of the shape of \<open>zi\<close>) and \<open>i_pack\<close> is three times the measured current: they are
  parameters, and so is the resistance grid, so that the loop is modelled for every
  grid and not only for the uniform one of line 72. Line 77 allocates \<open>i_cells\<close>.
\<close>

definition init_state ::
  "nat \<Rightarrow> nat \<Rightarrow> real list list \<Rightarrow> real list list \<Rightarrow> real list list \<Rightarrow> real list \<Rightarrow> script_state" where
  "init_state np ns z ocv r0 ip =
     \<lparr>n_parallel = np, n_series = ns, zi = z, ocv_cells = ocv, r0_cells = r0, i_pack = ip,
      i_cells = np_zeros3 (length ip) ns np, v_modules = None\<rparr>"

text \<open>Both grids have the shape \<open>(n_series, n_parallel)\<close> in the script.\<close>

definition has_shape :: "nat \<Rightarrow> nat \<Rightarrow> 'a list list \<Rightarrow> bool" where
  "has_shape r c a \<longleftrightarrow> length a = r \<and> list_all (\<lambda>row. length row = c) a"

subsection \<open>The solver loop, lines 79 to 81\<close>

text \<open>
  Line 80:
  \<^verbatim>\<open>v_modules = (np.sum(ocv_cells / r0_cells, axis=1) - i_pack[k]) / np.sum(1 / r0_cells, axis=1)\<close>
\<close>

definition solve_v_modules :: "script_state \<Rightarrow> nat \<Rightarrow> vec" where
  "solve_v_modules s k =
     np_vdiv
       (np_vsub_scalar
          (np_sum_axis1 (np_div2 (of_reals (ocv_cells s)) (of_reals (r0_cells s))))
          (Fin (i_pack s ! k)))
       (np_sum_axis1 (np_scalar_div2 (Fin 1) (of_reals (r0_cells s))))"

text \<open>Line 81, right-hand side: \<^verbatim>\<open>((ocv_cells.T - v_modules).T) / r0_cells\<close>\<close>

definition solve_i_cells :: "script_state \<Rightarrow> vec \<Rightarrow> grid" where
  "solve_i_cells s v =
     np_div2
       (np_T (n_parallel s) (n_series s)
          (np_sub_bcast (np_T (n_series s) (n_parallel s) (of_reals (ocv_cells s))) v))
       (of_reals (r0_cells s))"

text \<open>
  One iteration: line 80 binds \<open>v_modules\<close>, line 81 stores into \<open>i_cells[k]\<close>. Every
  operator of the two lines allocates its result, and the views \<^verbatim>\<open>.T\<close> are only read:
  no other variable is assigned.
\<close>

definition loop_body :: "script_state \<Rightarrow> nat \<Rightarrow> script_state" where
  "loop_body s k =
     (let s1 = s\<lparr>v_modules := Some (solve_v_modules s k)\<rparr>
      in s1\<lparr>i_cells := (i_cells s1)[k := solve_i_cells s1 (the (v_modules s1))]\<rparr>)"

text \<open>\<^verbatim>\<open>for k in ks: ...\<close>\<close>

fun for_loop :: "script_state \<Rightarrow> nat list \<Rightarrow> script_state" where
  "for_loop s [] = s"
| "for_loop s (k # ks) = for_loop (loop_body s k) ks"

text \<open>Lines 79 to 81: \<^verbatim>\<open>for k in range(1, len(i_pack)): ...\<close>\<close>

definition run_loop :: "script_state \<Rightarrow> script_state" where
  "run_loop s = for_loop s [1..<length (i_pack s)]"

subsection \<open>The flat cell list, line 83\<close>

text \<open>
  \<^verbatim>\<open>i_cells2 = i_cells.transpose(1, 2, 0).reshape(i_cells[0].size, len(i_pack))\<close>.
  \<open>i_cells[0]\<close> raises \<open>IndexError\<close> when \<open>i_cells\<close> has no timestep.
\<close>

definition i_cells2 :: "script_state \<Rightarrow> py_error + grid" where
  "i_cells2 s =
     (case i_cells s of
        [] \<Rightarrow> Inl IndexError
      | g0 # _ \<Rightarrow>
          np_reshape2 (np_size2 g0) (length (i_pack s))
            (np_ravel3 (np_transpose_120 (length (i_cells s)) (n_series s) (n_parallel s) (i_cells s))))"

text \<open>Lines 71 to 83 on given grids: the final variables and \<open>i_cells2\<close>, or the error raised.\<close>

definition pack_calculation ::
  "nat \<Rightarrow> nat \<Rightarrow> real list list \<Rightarrow> real list list \<Rightarrow> real list list \<Rightarrow> real list
     \<Rightarrow> py_error + (script_state \<times> grid)" where
  "pack_calculation np ns z ocv r0 ip =
     (let s = run_loop (init_state np ns z ocv r0 ip)
      in case i_cells2 s of Inl e \<Rightarrow> Inl e | Inr g \<Rightarrow> Inr (s, g))"

subsection \<open>The arithmetic of float64\<close>

text \<open>
  The arrays of the script hold IEEE 754 binary64 numbers and numpy computes on them in
  round-to-nearest-even. A float is a real number of the form \<open>m * 2\<^sup>e\<close> with
  \<open>\<bar>m\<bar> < 2\<^sup>5\<^sup>3\<close> and \<open>-1074 \<le> e \<le> 971\<close>, or \<open>inf\<close>, \<open>-inf\<close> or \<open>nan\<close>. The two zeros are
  one value \<open>Num 0\<close>: they differ only as divisors, and the divisors of lines 80 and 81
  (a resistance that was read, a sum of reciprocals) are never \<open>-0.0\<close>.
\<close>

datatype f64 = Num real | PInf | NInf | NaN

text \<open>The integer nearest to \<open>y\<close>, the even one of two that are equally near.\<close>

definition round_even :: "real \<Rightarrow> int" where
  "round_even y =
     (let f = \<lfloor>y\<rfloor>; r = y - of_int f
      in if r < 1 / 2 then f else if 1 / 2 < r then f + 1 else if even f then f else f + 1)"

text \<open>
  The exponent of the last place of \<open>x\<close>: the \<open>e\<close> with \<open>2\<^sup>5\<^sup>2 \<le> \<bar>x\<bar> / 2\<^sup>e < 2\<^sup>5\<^sup>3\<close>, and
  \<open>-1074\<close> for the subnormal numbers and zero.
\<close>

definition expo64 :: "real \<Rightarrow> int" where
  "expo64 x = max (bitlen \<lfloor>\<bar>x\<bar> * 2 ^ 1074\<rfloor> - 53) 0 - 1074"

text \<open>Rounding to 53 significant bits, with no bound on the exponent from above.\<close>

definition rnd64 :: "real \<Rightarrow> real" where
  "rnd64 x = of_int (round_even (x / 2 powi expo64 x)) * 2 powi expo64 x"

text \<open>The largest float.\<close>

definition maxf :: real where
  "maxf = (2 ^ 53 - 1) * 2 ^ 971"

text \<open>The float that a real result is stored as; a result that rounds beyond \<open>maxf\<close> overflows.\<close>

definition fin64 :: "real \<Rightarrow> f64" where
  "fin64 x = (let y = rnd64 x in if maxf < y then PInf else if y < - maxf then NInf else Num y)"

fun add64 :: "f64 \<Rightarrow> f64 \<Rightarrow> f64" where
  "add64 (Num a) (Num b) = fin64 (a + b)"
| "add64 NaN _ = NaN"
| "add64 _ NaN = NaN"
| "add64 PInf NInf = NaN"
| "add64 NInf PInf = NaN"
| "add64 PInf _ = PInf"
| "add64 _ PInf = PInf"
| "add64 NInf _ = NInf"
| "add64 _ NInf = NInf"

fun sub64 :: "f64 \<Rightarrow> f64 \<Rightarrow> f64" where
  "sub64 (Num a) (Num b) = fin64 (a - b)"
| "sub64 NaN _ = NaN"
| "sub64 _ NaN = NaN"
| "sub64 PInf PInf = NaN"
| "sub64 NInf NInf = NaN"
| "sub64 PInf _ = PInf"
| "sub64 _ PInf = NInf"
| "sub64 NInf _ = NInf"
| "sub64 _ NInf = PInf"

fun mul64 :: "f64 \<Rightarrow> f64 \<Rightarrow> f64" where
  "mul64 (Num a) (Num b) = fin64 (a * b)"
| "mul64 NaN _ = NaN"
| "mul64 _ NaN = NaN"
| "mul64 PInf (Num b) = (if b = 0 then NaN else if 0 < b then PInf else NInf)"
| "mul64 NInf (Num b) = (if b = 0 then NaN else if 0 < b then NInf else PInf)"
| "mul64 (Num a) PInf = (if a = 0 then NaN else if 0 < a then PInf else NInf)"
| "mul64 (Num a) NInf = (if a = 0 then NaN else if 0 < a then NInf else PInf)"
| "mul64 PInf PInf = PInf"
| "mul64 PInf NInf = NInf"
| "mul64 NInf PInf = NInf"
| "mul64 NInf NInf = PInf"

fun div64 :: "f64 \<Rightarrow> f64 \<Rightarrow> f64" where
  "div64 (Num a) (Num b) =
     (if b = 0 then (if a = 0 then NaN else if 0 < a then PInf else NInf) else fin64 (a / b))"
| "div64 NaN _ = NaN"
| "div64 _ NaN = NaN"
| "div64 (Num a) _ = Num 0"
| "div64 PInf (Num b) = (if b < 0 then NInf else PInf)"
| "div64 NInf (Num b) = (if b < 0 then PInf else NInf)"
| "div64 _ _ = NaN"

text \<open>
  \<^verbatim>\<open>np.sum\<close> of fewer than eight floats adds them to \<open>0.0\<close> from left to right. (From
  eight floats on, numpy adds in blocks; the script's modules have three cells.)
\<close>

definition sum64 :: "f64 list \<Rightarrow> f64" where
  "sum64 xs = foldl add64 (Num 0) xs"

text \<open>
  Lines 77 to 81 on the arrays as they are stored, in the arithmetic of float64:
  \<open>ocv\<close>, \<open>r0\<close> and \<open>ip\<close> are the floats of \<open>ocv_cells\<close>, \<open>r0_cells\<close> and \<open>i_pack\<close>.
\<close>

definition solve_v_modules64 :: "f64 list list \<Rightarrow> f64 list list \<Rightarrow> f64 \<Rightarrow> f64 list" where
  "solve_v_modules64 ocv r0 ik =
     map2 div64
       (map (\<lambda>a. sub64 a ik) (map sum64 (map2 (map2 div64) ocv r0)))
       (map sum64 (map (map (div64 (Num 1))) r0))"

definition solve_i_cells64 ::
  "nat \<Rightarrow> nat \<Rightarrow> f64 list list \<Rightarrow> f64 list list \<Rightarrow> f64 list \<Rightarrow> f64 list list" where
  "solve_i_cells64 ns np ocv r0 v =
     map2 (map2 div64) (np_T np ns (map (\<lambda>row. map2 sub64 row v) (np_T ns np ocv))) r0"

fun for_loop64 ::
  "nat \<Rightarrow> nat \<Rightarrow> f64 list list \<Rightarrow> f64 list list \<Rightarrow> f64 list \<Rightarrow> f64 list list list \<Rightarrow> nat list
     \<Rightarrow> f64 list list list" where
  "for_loop64 ns np ocv r0 ip ic [] = ic"
| "for_loop64 ns np ocv r0 ip ic (k # ks) =
     for_loop64 ns np ocv r0 ip
       (ic[k := solve_i_cells64 ns np ocv r0 (solve_v_modules64 ocv r0 (ip ! k))]) ks"

definition i_cells64 ::
  "nat \<Rightarrow> nat \<Rightarrow> f64 list list \<Rightarrow> f64 list list \<Rightarrow> f64 list \<Rightarrow> f64 list list list" where
  "i_cells64 np ns ocv r0 ip =
     for_loop64 ns np ocv r0 ip
       (replicate (length ip) (replicate ns (replicate np (Num 0)))) [1..<length ip]"

text \<open>Line 72 in float64, for the float \<open>r0_mean\<close>.\<close>

definition r0_cells_script64 :: "f64 \<Rightarrow> nat \<Rightarrow> nat \<Rightarrow> f64 list list" where
  "r0_cells_script64 r0_mean ns np = replicate ns (replicate np (mul64 r0_mean (Num 1)))"

subsection \<open>Operations that signal no exception\<close>

text \<open>
  An operation of float64 signals overflow when its result rounds beyond \<open>maxf\<close>,
  underflow when its exact result is not zero and smaller than \<open>2\<^sup>-\<^sup>1\<^sup>0\<^sup>2\<^sup>2\<close>, and division by
  zero when a divisor is zero (numpy reports them as \<open>RuntimeWarning\<close>). \<open>quiet z\<close> says
  that the exact result \<open>z\<close> signals neither overflow nor underflow.
\<close>

definition quiet :: "real \<Rightarrow> bool" where
  "quiet z \<longleftrightarrow> (z = 0 \<or> 2 ^ 52 \<le> \<bar>z\<bar> * 2 ^ 1074) \<and> \<bar>rnd64 z\<bar> \<le> maxf"

fun quiet_add :: "f64 \<Rightarrow> f64 \<Rightarrow> bool" where
  "quiet_add (Num a) (Num b) = quiet (a + b)"
| "quiet_add _ _ = False"

fun quiet_sub :: "f64 \<Rightarrow> f64 \<Rightarrow> bool" where
  "quiet_sub (Num a) (Num b) = quiet (a - b)"
| "quiet_sub _ _ = False"

fun quiet_div :: "f64 \<Rightarrow> f64 \<Rightarrow> bool" where
  "quiet_div (Num a) (Num b) = (b \<noteq> 0 \<and> quiet (a / b))"
| "quiet_div _ _ = False"

fun quiet_sum :: "f64 \<Rightarrow> f64 list \<Rightarrow> bool" where
  "quiet_sum acc [] = True"
| "quiet_sum acc (x # xs) = (quiet_add acc x \<and> quiet_sum (add64 acc x) xs)"

text \<open>
  Lines 80 and 81 signal no exception for a module with the cell voltages \<open>os\<close>, the
  resistances \<open>rs\<close> and the pack current \<open>ik\<close>.
\<close>

definition quiet_module :: "f64 list \<Rightarrow> f64 list \<Rightarrow> f64 \<Rightarrow> bool" where
  "quiet_module os rs ik =
     (let a = map2 div64 os rs;
          b = map (div64 (Num 1)) rs;
          n = sub64 (sum64 a) ik;
          v = div64 n (sum64 b)
      in list_all2 quiet_div os rs \<and> quiet_sum (Num 0) a \<and> quiet_sub (sum64 a) ik \<and>
         list_all (quiet_div (Num 1)) rs \<and> quiet_sum (Num 0) b \<and> quiet_div n (sum64 b) \<and>
         list_all (\<lambda>x. quiet_sub x v) os \<and>
         list_all2 (\<lambda>x r. quiet_div (sub64 x v) r) os rs)"

text \<open>The real number a finite float stands for.\<close>

fun val64 :: "f64 \<Rightarrow> real" where
  "val64 (Num x) = x"
| "val64 _ = 0"

text \<open>
  The unit roundoff \<open>2\<^sup>-\<^sup>5\<^sup>3\<close>, and the factors that \<open>k\<close> roundings can put on a result:
  those between \<open>(1 - u)\<^sup>k\<close> and \<open>1 / (1 - u)\<^sup>k\<close>.
\<close>

definition u64 :: real where
  "u64 = 1 / 2 ^ 53"

definition fac :: "nat \<Rightarrow> real \<Rightarrow> bool" where
  "fac k f \<longleftrightarrow> (1 - u64) ^ k \<le> f \<and> f * (1 - u64) ^ k \<le> 1"

text \<open>The relative error that \<open>k\<close> roundings can leave.\<close>

definition err64 :: "nat \<Rightarrow> real" where
  "err64 k = 1 / (1 - u64) ^ k - 1"

section \<open>Properties of the loop in exact arithmetic\<close>

subsection \<open>Non-finite operands\<close>

lemma np_div_zero: "np_div x (Fin 0) = NonFin"
  by (cases x) simp_all

lemma np_div_by_NonFin: "np_div x NonFin = NonFin"
  by (cases x) simp_all

lemma np_sub_NonFin: "np_sub x NonFin = NonFin"
  by (cases x) simp_all

subsection \<open>Sums of quotients\<close>

text \<open>
  Where no divisor is zero the sums of line 80 are sums of real numbers; a zero divisor
  makes them non-finite.
\<close>

lemma np_sum_recip:
  "0 \<notin> set rs \<Longrightarrow>
   np_sum (map (\<lambda>r. np_div (Fin 1) (Fin r)) rs) = Fin (\<Sum>r\<leftarrow>rs. 1 / r)"
  by (induction rs) auto

lemma np_sum_recip_zero:
  "0 \<in> set rs \<Longrightarrow> np_sum (map (\<lambda>r. np_div (Fin 1) (Fin r)) rs) = NonFin"
proof (induction rs)
  case Nil
  then show ?case by simp
next
  case (Cons r rs)
  then show ?case
    by (cases "np_sum (map (\<lambda>r. np_div (Fin 1) (Fin r)) rs)") auto
qed


lemma np_sum_quot_zero:
  "length xs = length rs \<Longrightarrow> 0 \<in> set rs \<Longrightarrow>
   np_sum (map2 (\<lambda>x r. np_div (Fin x) (Fin r)) xs rs) = NonFin"
proof (induction xs rs rule: list_induct2)
  case Nil
  then show ?case by simp
next
  case (Cons x xs r rs)
  then show ?case
    by (cases "np_sum (map2 (\<lambda>x r. np_div (Fin x) (Fin r)) xs rs)") auto
qed



lemma map2_upt:
  "length xs = n \<Longrightarrow> length ys = n \<Longrightarrow>
   map2 f xs ys = map (\<lambda>p. f (xs ! p) (ys ! p)) [0..<n]"
  by (rule nth_equalityI) simp_all

lemma map_upt:
  "length xs = n \<Longrightarrow> map f xs = map (\<lambda>p. f (xs ! p)) [0..<n]"
  by (rule nth_equalityI) simp_all


lemma np_sum_recip_upt_zero:
  assumes "q < n" and "f q = 0"
  shows "np_sum (map (\<lambda>p. np_div (Fin 1) (Fin (f p))) [0..<n]) = NonFin"
proof -
  have "0 \<in> set (map f [0..<n])"
    using assms by (auto simp: image_iff intro!: bexI [of _ q])
  from np_sum_recip_zero [OF this] show ?thesis
    by (simp add: comp_def)
qed



subsection \<open>What one iteration leaves unchanged\<close>

lemma loop_body_frame:
  "n_parallel (loop_body s k) = n_parallel s"
  "n_series (loop_body s k) = n_series s"
  "zi (loop_body s k) = zi s"
  "ocv_cells (loop_body s k) = ocv_cells s"
  "r0_cells (loop_body s k) = r0_cells s"
  "i_pack (loop_body s k) = i_pack s"
  by (simp_all add: loop_body_def Let_def)

lemma loop_body_i_cells:
  "i_cells (loop_body s k) = (i_cells s)[k := solve_i_cells s (solve_v_modules s k)]"
  by (simp add: loop_body_def Let_def solve_i_cells_def)


lemma solve_loop_body:
  "solve_v_modules (loop_body s j) k = solve_v_modules s k"
  "solve_i_cells (loop_body s j) v = solve_i_cells s v"
  by (simp_all add: solve_v_modules_def solve_i_cells_def loop_body_frame)

lemma for_loop_frame:
  "n_parallel (for_loop s ks) = n_parallel s \<and>
   n_series (for_loop s ks) = n_series s \<and>
   zi (for_loop s ks) = zi s \<and>
   ocv_cells (for_loop s ks) = ocv_cells s \<and>
   r0_cells (for_loop s ks) = r0_cells s \<and>
   i_pack (for_loop s ks) = i_pack s"
  by (induction s ks rule: for_loop.induct) (simp_all add: loop_body_frame)

lemma for_loop_length:
  "length (i_cells (for_loop s ks)) = length (i_cells s)"
  by (induction s ks rule: for_loop.induct) (simp_all add: loop_body_i_cells)

lemma for_loop_i_cells:
  "k < length (i_cells s) \<Longrightarrow>
   i_cells (for_loop s ks) ! k =
     (if k \<in> set ks then solve_i_cells s (solve_v_modules s k) else i_cells s ! k)"
proof (induction s ks rule: for_loop.induct)
  case (1 s)
  then show ?case by simp
next
  case (2 s j ks)
  have len: "k < length (i_cells (loop_body s j))"
    using "2.prems" by (simp add: loop_body_i_cells)
  show ?case
    using "2.IH" [OF len] "2.prems"
    by (auto simp: solve_loop_body loop_body_i_cells)
qed



lemma init_state_simps:
  "n_parallel (init_state np ns z ocv r0 ip) = np"
  "n_series (init_state np ns z ocv r0 ip) = ns"
  "zi (init_state np ns z ocv r0 ip) = z"
  "ocv_cells (init_state np ns z ocv r0 ip) = ocv"
  "r0_cells (init_state np ns z ocv r0 ip) = r0"
  "i_pack (init_state np ns z ocv r0 ip) = ip"
  "i_cells (init_state np ns z ocv r0 ip) = np_zeros3 (length ip) ns np"
  "v_modules (init_state np ns z ocv r0 ip) = None"
  by (simp_all add: init_state_def)

lemma run_loop_frame:
  "n_parallel (run_loop s) = n_parallel s"
  "n_series (run_loop s) = n_series s"
  "zi (run_loop s) = zi s"
  "ocv_cells (run_loop s) = ocv_cells s"
  "r0_cells (run_loop s) = r0_cells s"
  "i_pack (run_loop s) = i_pack s"
  by (simp_all add: run_loop_def for_loop_frame)

lemma run_loop_length:
  "length (i_cells (run_loop s)) = length (i_cells s)"
  by (simp add: run_loop_def for_loop_length)

lemma run_loop_i_cells:
  "k < length (i_cells s) \<Longrightarrow>
   i_cells (run_loop s) ! k =
     (if 1 \<le> k \<and> k < length (i_pack s) then solve_i_cells s (solve_v_modules s k)
      else i_cells s ! k)"
  by (simp add: run_loop_def for_loop_i_cells)

lemma run_loop_init_i_cells:
  "k < length ip \<Longrightarrow>
   i_cells (run_loop (init_state np ns z ocv r0 ip)) ! k =
     (if 1 \<le> k
      then solve_i_cells (init_state np ns z ocv r0 ip)
             (solve_v_modules (init_state np ns z ocv r0 ip) k)
      else np_zeros2 ns np)"
  by (simp add: run_loop_i_cells init_state_simps np_zeros3_def)

lemma run_i_cells_0:
  "ip \<noteq> [] \<Longrightarrow> i_cells (run_loop (init_state np ns z ocv r0 ip)) ! 0 = np_zeros2 ns np"
  using run_loop_init_i_cells [of 0 ip np ns z ocv r0] by simp

subsection \<open>Lines 80 and 81, entry by entry\<close>

lemma has_shape_row:
  "has_shape r c a \<Longrightarrow> m < r \<Longrightarrow> length (a ! m) = c"
  by (simp add: has_shape_def list_all_length)

lemma solve_v_modules_length:
  "has_shape (n_series s) (n_parallel s) (ocv_cells s) \<Longrightarrow>
   has_shape (n_series s) (n_parallel s) (r0_cells s) \<Longrightarrow>
   length (solve_v_modules s k) = n_series s"
  by (simp add: solve_v_modules_def np_vdiv_def np_vsub_scalar_def np_sum_axis1_def
      np_div2_def np_scalar_div2_def of_reals_def has_shape_def)

lemma solve_v_modules_nth:
  assumes "has_shape (n_series s) (n_parallel s) (ocv_cells s)"
    and "has_shape (n_series s) (n_parallel s) (r0_cells s)"
    and "m < n_series s"
  shows "solve_v_modules s k ! m =
     np_div
       (np_sub
          (np_sum (map2 (\<lambda>x r. np_div (Fin x) (Fin r)) (ocv_cells s ! m) (r0_cells s ! m)))
          (Fin (i_pack s ! k)))
       (np_sum (map (\<lambda>r. np_div (Fin 1) (Fin r)) (r0_cells s ! m)))"
proof -
  have l1: "length (ocv_cells s) = n_series s" and l2: "length (r0_cells s) = n_series s"
    using assms by (simp_all add: has_shape_def)
  have z: "map2 np_div (map Fin (ocv_cells s ! m)) (map Fin (r0_cells s ! m)) =
           map2 (\<lambda>x r. np_div (Fin x) (Fin r)) (ocv_cells s ! m) (r0_cells s ! m)"
    by (auto simp: zip_map_map)
  show ?thesis
    using assms(3) l1 l2
    by (simp add: solve_v_modules_def np_vdiv_def np_vsub_scalar_def np_sum_axis1_def
        np_div2_def np_scalar_div2_def of_reals_def z comp_def)
qed


lemma solve_i_cells_nth:
  assumes "has_shape (n_series s) (n_parallel s) (ocv_cells s)"
    and "has_shape (n_series s) (n_parallel s) (r0_cells s)"
    and "length v = n_series s"
    and "m < n_series s" and "p < n_parallel s"
  shows "solve_i_cells s v ! m ! p =
     np_div (np_sub (Fin (ocv_cells s ! m ! p)) (v ! m)) (Fin (r0_cells s ! m ! p))"
proof -
  have l1: "length (ocv_cells s) = n_series s" and l2: "length (r0_cells s) = n_series s"
    and r1: "length (ocv_cells s ! m) = n_parallel s"
    and r2: "length (r0_cells s ! m) = n_parallel s"
    using assms by (simp_all add: has_shape_def list_all_length)
  show ?thesis
    using assms(3-5) l1 l2 r1 r2
    by (simp add: solve_i_cells_def np_div2_def np_T_def np_sub_bcast_def of_reals_def)
qed


lemma run_v_modules_np:
  assumes "has_shape ns np ocv" and "has_shape ns np r0" and "m < ns"
  shows "solve_v_modules (init_state np ns z ocv r0 ip) k ! m =
       np_div
         (np_sub (np_sum (map (\<lambda>p. np_div (Fin (ocv ! m ! p)) (Fin (r0 ! m ! p))) [0..<np]))
            (Fin (ip ! k)))
         (np_sum (map (\<lambda>p. np_div (Fin 1) (Fin (r0 ! m ! p))) [0..<np]))"
proof -
  let ?s = "init_state np ns z ocv r0 ip"
  have sh1: "has_shape (n_series ?s) (n_parallel ?s) (ocv_cells ?s)"
    and sh2: "has_shape (n_series ?s) (n_parallel ?s) (r0_cells ?s)"
    and m: "m < n_series ?s"
    using assms by (simp_all add: init_state_simps)
  have r1: "length (ocv ! m) = np" and r2: "length (r0 ! m) = np"
    using assms by (simp_all add: has_shape_row)
  show ?thesis
    using solve_v_modules_nth [OF sh1 sh2 m, of k]
    by (simp add: init_state_simps map2_upt [OF r1 r2] map_upt [OF r2])
qed

lemma run_i_cells_np:
  assumes "has_shape ns np ocv" and "has_shape ns np r0"
    and "1 \<le> k" and "k < length ip" and "m < ns" and "p < np"
  shows "i_cells (run_loop (init_state np ns z ocv r0 ip)) ! k ! m ! p =
       np_div
         (np_sub (Fin (ocv ! m ! p)) (solve_v_modules (init_state np ns z ocv r0 ip) k ! m))
         (Fin (r0 ! m ! p))"
proof -
  let ?s = "init_state np ns z ocv r0 ip"
  have sh1: "has_shape (n_series ?s) (n_parallel ?s) (ocv_cells ?s)"
    and sh2: "has_shape (n_series ?s) (n_parallel ?s) (r0_cells ?s)"
    and m: "m < n_series ?s" and p: "p < n_parallel ?s"
    using assms by (simp_all add: init_state_simps)
  have len: "length (solve_v_modules ?s k) = n_series ?s"
    by (rule solve_v_modules_length [OF sh1 sh2])
  have b: "i_cells (run_loop ?s) ! k = solve_i_cells ?s (solve_v_modules ?s k)"
    using run_loop_init_i_cells [OF assms(4), of np ns z ocv r0] assms(3) by simp
  show ?thesis
    unfolding b using solve_i_cells_nth [OF sh1 sh2 len m p] by (simp add: init_state_simps)
qed




lemma run_i_cells_zero_resistance:
  assumes "has_shape ns np ocv" and "has_shape ns np r0"
    and "1 \<le> k" and "k < length ip" and "m < ns" and "p < np"
    and "q < np" and "r0 ! m ! q = 0"
  shows "i_cells (run_loop (init_state np ns z ocv r0 ip)) ! k ! m ! p = NonFin"
proof -
  have v: "solve_v_modules (init_state np ns z ocv r0 ip) k ! m = NonFin"
    unfolding run_v_modules_np [OF assms(1,2,5)]
      np_sum_recip_upt_zero [of q np "\<lambda>p. r0 ! m ! p", OF assms(7,8)]
    by (rule np_div_by_NonFin)
  show ?thesis
    unfolding run_i_cells_np [OF assms(1-6)] v by (simp add: np_sub_NonFin)
qed

text \<open>
  The divisor of line 80 is non-finite only where the numerator is: \<open>np_div\<close> is never
  applied to a finite numerator and a non-finite divisor. The divisors of line 81 are
  the entries of \<open>r0_cells\<close>, which are finite.
\<close>

lemma v_modules_divisor_NonFin:
  assumes "has_shape ns np ocv" and "has_shape ns np r0" and "m < ns"
    and "np_sum_axis1 (np_scalar_div2 (Fin 1) (of_reals r0)) ! m = NonFin"
  shows "np_vsub_scalar (np_sum_axis1 (np_div2 (of_reals ocv) (of_reals r0))) x ! m = NonFin"
proof -
  have l1: "length ocv = ns" and l2: "length r0 = ns"
    and r: "length (ocv ! m) = length (r0 ! m)"
    using assms(1-3) by (simp_all add: has_shape_def list_all_length)
  have d: "np_sum (map (\<lambda>r. np_div (Fin 1) (Fin r)) (r0 ! m)) = NonFin"
    using assms(3,4) l2
    by (simp add: np_sum_axis1_def np_scalar_div2_def of_reals_def comp_def)
  have z: "0 \<in> set (r0 ! m)"
    using d np_sum_recip [of "r0 ! m"] by auto
  have q: "map2 np_div (map Fin (ocv ! m)) (map Fin (r0 ! m)) =
           map2 (\<lambda>x r. np_div (Fin x) (Fin r)) (ocv ! m) (r0 ! m)"
    by (auto simp: zip_map_map)
  show ?thesis
    using assms(3) l1 l2 np_sum_quot_zero [OF r z]
    by (simp add: np_vsub_scalar_def np_sum_axis1_def np_div2_def of_reals_def q)
qed

subsection \<open>The uniform resistance grid of line 72\<close>




subsection \<open>Transposing and reshaping, line 83\<close>

lemma length_concat_uniform:
  "\<forall>xs\<in>set xss. length xs = c \<Longrightarrow> length (concat xss) = length xss * c"
  by (induction xss) simp_all

lemma take_drop_concat_uniform:
  "\<forall>xs\<in>set xss. length xs = c \<Longrightarrow> i < length xss \<Longrightarrow>
   take c (drop (i * c) (concat xss)) = xss ! i"
proof (induction xss arbitrary: i)
  case Nil
  then show ?case by simp
next
  case (Cons xs xss)
  show ?case
  proof (cases i)
    case 0
    then show ?thesis using Cons.prems by simp
  next
    case (Suc i')
    then show ?thesis using Cons.prems Cons.IH [of i'] by simp
  qed
qed

lemma nth_concat_uniform:
  assumes "\<forall>xs\<in>set xss. length xs = c" and "i < length xss" and "j < c"
  shows "concat xss ! (i * c + j) = xss ! i ! j"
proof -
  have "i * c + j < length (concat xss)"
  proof -
    have "i * c + j < Suc i * c" using assms(3) by simp
    also have "\<dots> \<le> length xss * c" using assms(2) by (simp add: Suc_leI mult_le_mono1 del: mult_Suc)
    finally show ?thesis by (simp add: length_concat_uniform [OF assms(1)])
  qed
  then have "take c (drop (i * c) (concat xss)) ! j = concat xss ! (i * c + j)"
    using assms(3) by simp
  then show ?thesis
    by (simp add: take_drop_concat_uniform [OF assms(1,2)])
qed

lemma np_reshape2_rows:
  assumes "\<forall>xs\<in>set xss. length xs = c"
  shows "np_reshape2 (length xss) c (concat xss) = Inr xss"
proof -
  have "map (\<lambda>i. take c (drop (i * c) (concat xss))) [0..<length xss] = xss"
    by (rule nth_equalityI) (simp_all add: take_drop_concat_uniform [OF assms])
  then show ?thesis
    by (simp add: np_reshape2_def length_concat_uniform [OF assms])
qed

lemma transpose_120_rows:
  "\<forall>row\<in>set (concat (np_transpose_120 t r c a)). length row = t"
  by (auto simp: np_transpose_120_def)

lemma transpose_120_length:
  "length (concat (np_transpose_120 t r c a)) = r * c"
proof -
  have "\<forall>xs\<in>set (np_transpose_120 t r c a). length xs = c"
    by (auto simp: np_transpose_120_def)
  from length_concat_uniform [OF this] show ?thesis
    by (simp add: np_transpose_120_def)
qed

lemma transpose_120_nth:
  assumes "m < r" and "p < c"
  shows "concat (np_transpose_120 t r c a) ! (m * c + p) = map (\<lambda>k. a ! k ! m ! p) [0..<t]"
proof -
  have u: "\<forall>xs\<in>set (np_transpose_120 t r c a). length xs = c"
    by (auto simp: np_transpose_120_def)
  have l: "m < length (np_transpose_120 t r c a)"
    using assms(1) by (simp add: np_transpose_120_def)
  show ?thesis
    unfolding nth_concat_uniform [OF u l assms(2)]
    using assms by (simp add: np_transpose_120_def)
qed

lemma np_size2_zeros: "np_size2 (np_zeros2 r c) = r * c"
  by (simp add: np_size2_def np_zeros2_def sum_list_replicate)

lemma i_cells2_run:
  assumes "ip \<noteq> []"
  shows "i_cells2 (run_loop (init_state np ns z ocv r0 ip)) =
     Inr (concat (np_transpose_120 (length ip) ns np
            (i_cells (run_loop (init_state np ns z ocv r0 ip)))))"
proof -
  let ?s = "run_loop (init_state np ns z ocv r0 ip)"
  have len: "length (i_cells ?s) = length ip"
    by (simp add: run_loop_length init_state_simps np_zeros3_def)
  then obtain g0 gs where c: "i_cells ?s = g0 # gs"
    using assms by (cases "i_cells ?s") auto
  have "g0 = i_cells ?s ! 0" by (simp add: c)
  then have g0: "g0 = np_zeros2 ns np"
    by (simp add: run_i_cells_0 [OF assms])
  have sz: "np_size2 g0 = length (concat (np_transpose_120 (length ip) ns np (i_cells ?s)))"
    by (simp add: g0 np_size2_zeros transpose_120_length)
  have "i_cells2 ?s =
      np_reshape2 (np_size2 g0) (length ip)
        (concat (concat (np_transpose_120 (length ip) ns np (i_cells ?s))))"
    unfolding i_cells2_def np_ravel3_def len
    by (simp add: c run_loop_frame init_state_simps)
  also have "\<dots> = Inr (concat (np_transpose_120 (length ip) ns np (i_cells ?s)))"
    unfolding sz by (rule np_reshape2_rows [OF transpose_120_rows])
  finally show ?thesis .
qed

lemma pack_calculation_Inr:
  assumes "ip \<noteq> []"
  shows "pack_calculation np ns z ocv r0 ip =
     Inr (run_loop (init_state np ns z ocv r0 ip),
          concat (np_transpose_120 (length ip) ns np
            (i_cells (run_loop (init_state np ns z ocv r0 ip)))))"
  by (simp add: pack_calculation_def Let_def i_cells2_run [OF assms])

section \<open>Properties of float64\<close>

subsection \<open>Rounding\<close>

lemma round_even_err: "\<bar>of_int (round_even y) - y\<bar> \<le> 1 / 2"
  unfolding round_even_def Let_def by (auto simp: abs_if) linarith+

lemma round_even_unique:
  assumes "\<bar>y - of_int m\<bar> < 1 / 2"
  shows "round_even y = m"
proof -
  have "\<bar>of_int (round_even y) - y\<bar> \<le> 1 / 2" by (rule round_even_err)
  then have "\<bar>(of_int (round_even y) :: real) - of_int m\<bar> < 1" using assms by linarith
  then have "\<bar>round_even y - m\<bar> < 1" 
    by (metis of_int_abs of_int_diff of_int_less_1_iff)
  then show ?thesis by linarith
qed

lemma bitlen_gt:
  assumes "2 ^ j \<le> n"
  shows "int j < bitlen n"
proof -
  have pos: "0 < n" using assms by (smt (verit) zero_less_power)
  have "(2::int) ^ j < 2 ^ nat (bitlen n)"
    using bitlen_bounds [OF pos] assms by linarith
  then have "j < nat (bitlen n)"
    by (rule power_less_imp_less_exp [rotated]) simp
  then show ?thesis by linarith
qed

lemma bitlen_le:
  assumes "n < 2 ^ j"
  shows "bitlen n \<le> int j"
proof (cases "0 < n")
  case True
  have "(2::int) ^ nat (bitlen n - 1) < 2 ^ j"
    using bitlen_bounds [OF True] assms by linarith
  then have "nat (bitlen n - 1) < j"
    by (rule power_less_imp_less_exp [rotated]) simp
  then show ?thesis by linarith
next
  case False
  then have "bitlen n = 0" by (simp add: bitlen_eq_zero_iff)
  then show ?thesis by simp
qed

lemma bitlen_floor_gt:
  assumes "(2::real) ^ j \<le> y"
  shows "int j < bitlen \<lfloor>y\<rfloor>"
proof -
  have "real_of_int (2 ^ j) \<le> y" using assms by simp
  then have "(2::int) ^ j \<le> \<lfloor>y\<rfloor>" by (rule iffD2 [OF le_floor_iff])
  then show ?thesis by (rule bitlen_gt)
qed

lemma bitlen_floor_le:
  assumes "y < (2::real) ^ j"
  shows "bitlen \<lfloor>y\<rfloor> \<le> int j"
proof -
  have "y < real_of_int (2 ^ j)" using assms by simp
  then have "\<lfloor>y\<rfloor> < (2::int) ^ j" by (rule iffD2 [OF floor_less_iff])
  then show ?thesis by (rule bitlen_le)
qed

lemma floor_bitlen_lower:
  assumes "int j < bitlen \<lfloor>y\<rfloor>"
  shows "(2::real) ^ j \<le> y"
proof -
  have "bitlen \<lfloor>y\<rfloor> \<noteq> 0" using assms by simp
  then have pos: "0 < \<lfloor>y\<rfloor>" by (simp add: bitlen_eq_zero_iff)
  have "j \<le> nat (bitlen \<lfloor>y\<rfloor> - 1)" using assms by simp
  then have "(2::int) ^ j \<le> 2 ^ nat (bitlen \<lfloor>y\<rfloor> - 1)"
    by (rule power_increasing) simp
  also have "\<dots> \<le> \<lfloor>y\<rfloor>" using bitlen_bounds [OF pos] by simp
  finally have "real_of_int (2 ^ j) \<le> real_of_int \<lfloor>y\<rfloor>" by (rule iffD2 [OF of_int_le_iff])
  also have "\<dots> \<le> y" by (rule of_int_floor_le)
  finally show ?thesis by simp
qed

text \<open>The same facts with the scale \<open>2 ^ N\<close> of the smallest subnormal number.\<close>

lemma powi_scale: "(2::real) powi (int k - int N) * 2 ^ N = 2 ^ k"
  by (simp add: power_int_diff)

lemma expo_eqI:
  fixes x :: real
  assumes "2 ^ q * 2 powi e \<le> \<bar>x\<bar>" and "\<bar>x\<bar> < 2 ^ Suc q * 2 powi e" and "- int N \<le> e"
  shows "max (bitlen \<lfloor>\<bar>x\<bar> * 2 ^ N\<rfloor> - int (Suc q)) 0 - int N = e"
proof -
  define k where "k = nat (e + int N)"
  have e: "e = int k - int N" using assms(3) by (simp add: k_def)
  have "2 ^ q * 2 powi e * 2 ^ N \<le> \<bar>x\<bar> * (2 ^ N :: real)"
    using assms(1) by (intro mult_right_mono) simp_all
  then have lo: "(2::real) ^ (q + k) \<le> \<bar>x\<bar> * 2 ^ N"
    unfolding e by (simp add: power_add powi_scale mult.assoc)
  have "\<bar>x\<bar> * (2 ^ N :: real) < 2 ^ Suc q * 2 powi e * 2 ^ N"
    using assms(2) by (intro mult_strict_right_mono) simp_all
  then have hi: "\<bar>x\<bar> * 2 ^ N < (2::real) ^ (Suc q + k)"
    unfolding e by (simp only: power_add powi_scale mult.assoc)
  have "int (q + k) < bitlen \<lfloor>\<bar>x\<bar> * 2 ^ N\<rfloor>" by (rule bitlen_floor_gt [OF lo])
  moreover have "bitlen \<lfloor>\<bar>x\<bar> * 2 ^ N\<rfloor> \<le> int (Suc q + k)" by (rule bitlen_floor_le [OF hi])
  ultimately show ?thesis unfolding e by simp
qed

lemma expo_subnormal:
  fixes x :: real
  assumes "\<bar>x\<bar> * 2 ^ N < 2 ^ q"
  shows "max (bitlen \<lfloor>\<bar>x\<bar> * 2 ^ N\<rfloor> - int (Suc q)) 0 - int N = - int N"
  using bitlen_floor_le [OF assms] by simp

lemma expo_normal:
  fixes x :: real
  assumes "2 ^ q \<le> \<bar>x\<bar> * 2 ^ N"
  shows "2 ^ q * 2 powi (max (bitlen \<lfloor>\<bar>x\<bar> * 2 ^ N\<rfloor> - int (Suc q)) 0 - int N) \<le> \<bar>x\<bar>"
proof -
  let ?L = "bitlen \<lfloor>\<bar>x\<bar> * 2 ^ N\<rfloor>"
  have L: "int q < ?L" by (rule bitlen_floor_gt [OF assms])
  define k where "k = nat (?L - int (Suc q))"
  have bl: "?L = int k + int (Suc q)" using L by (simp add: k_def)
  have "int (q + k) < ?L" unfolding bl by simp
  then have "(2::real) ^ (q + k) \<le> \<bar>x\<bar> * 2 ^ N" by (rule floor_bitlen_lower)
  then have "(2::real) ^ q * (2 ^ k / 2 ^ N) \<le> \<bar>x\<bar>"
    by (simp add: field_simps power_add)
  moreover have "max (?L - int (Suc q)) 0 - int N = int k - int N"
    unfolding bl by simp
  ultimately show ?thesis
    by (simp add: power_int_diff)
qed

lemma expo64_eqI:
  assumes "2 ^ 52 * 2 powi e \<le> \<bar>x\<bar>" and "\<bar>x\<bar> < 2 ^ 53 * 2 powi e" and "- 1074 \<le> e"
  shows "expo64 x = e"
  using expo_eqI [of 52 e x 1074] assms unfolding expo64_def
  by (simp del: power_numeral)

lemma expo64_subnormal:
  assumes "\<bar>x\<bar> * 2 ^ 1074 < 2 ^ 52"
  shows "expo64 x = - 1074"
  using expo_subnormal [of x 1074 52] assms unfolding expo64_def
  by (simp del: power_numeral)

lemma expo64_normal:
  assumes "2 ^ 52 \<le> \<bar>x\<bar> * 2 ^ 1074"
  shows "2 ^ 52 * 2 powi expo64 x \<le> \<bar>x\<bar>"
  using expo_normal [of 52 x 1074] assms unfolding expo64_def
  by (simp del: power_numeral)

lemma rnd64_zero: "rnd64 0 = 0"
  by (simp add: rnd64_def round_even_def)

lemma rnd64_abs_err: "\<bar>rnd64 x - x\<bar> \<le> 2 powi expo64 x / 2"
proof -
  let ?s = "(2::real) powi expo64 x"
  have s: "0 < ?s" by simp
  have "\<bar>rnd64 x - x\<bar> = \<bar>of_int (round_even (x / ?s)) - x / ?s\<bar> * ?s"
  proof -
    have "rnd64 x - x = (of_int (round_even (x / ?s)) - x / ?s) * ?s"
      unfolding rnd64_def using s by (simp add: left_diff_distrib)
    then show ?thesis using s by (simp add: abs_mult)
  qed
  also have "\<dots> \<le> 1 / 2 * ?s"
    using round_even_err [of "x / ?s"] s by (intro mult_right_mono) simp_all
  finally show ?thesis by simp
qed

lemma rnd64_rel_err:
  assumes "2 ^ 52 \<le> \<bar>x\<bar> * 2 ^ 1074"
  shows "\<bar>rnd64 x - x\<bar> \<le> \<bar>x\<bar> / 2 ^ 53"
proof -
  have "\<bar>rnd64 x - x\<bar> \<le> 2 powi expo64 x / 2" by (rule rnd64_abs_err)
  also have "\<dots> \<le> \<bar>x\<bar> / 2 ^ 53"
  proof -
    have "2 ^ 52 * 2 powi expo64 x / 2 ^ 53 \<le> \<bar>x\<bar> / 2 ^ 53"
      using expo64_normal [OF assms] by (intro divide_right_mono) simp_all
    moreover have "(2::real) ^ 52 * 2 powi expo64 x / 2 ^ 53 = 2 powi expo64 x / 2"
      by simp
    ultimately show ?thesis by simp
  qed
  finally show ?thesis .
qed

lemma rnd64_eqI:
  assumes "2 ^ 52 * 2 powi e \<le> \<bar>x\<bar>" and "\<bar>x\<bar> < 2 ^ 53 * 2 powi e" and "- 1074 \<le> e"
    and "\<bar>x - of_int m * 2 powi e\<bar> * 2 < 2 powi e"
  shows "rnd64 x = of_int m * 2 powi e"
proof -
  have ex: "expo64 x = e" by (rule expo64_eqI [OF assms(1-3)])
  have s: "0 < (2::real) powi e" by simp
  have "x / 2 powi e - of_int m = (x - of_int m * 2 powi e) / 2 powi e"
    using s by (simp add: diff_divide_distrib)
  then have "\<bar>x / 2 powi e - of_int m\<bar> = \<bar>x - of_int m * 2 powi e\<bar> / 2 powi e"
    using s by (simp add: abs_divide)
  also have "\<dots> < 1 / 2"
    using assms(4) s by (simp add: field_simps)
  finally have "round_even (x / 2 powi e) = m" by (rule round_even_unique)
  then show ?thesis unfolding rnd64_def ex by simp
qed

lemma maxf_ge: "e \<le> 970 \<Longrightarrow> 2 ^ 53 * 2 powi e \<le> maxf"
proof -
  assume e: "e \<le> 970"
  have "(2::real) powi e \<le> 2 powi 970"
    using e by (intro power_int_increasing) simp_all
  then have "(2::real) ^ 53 * 2 powi e \<le> 2 ^ 53 * 2 powi 970"
    by (intro mult_left_mono) simp_all
  also have "\<dots> = 2 ^ 52 * (2::real) ^ 971"
    by (simp del: power_numeral add: power_add [symmetric])
  also have "\<dots> \<le> (2 ^ 53 - 1) * (2::real) ^ 971"
  proof (rule mult_right_mono)
    have "(2::real) ^ 53 = 2 * 2 ^ 52" by (simp del: power_numeral add: power_Suc [symmetric])
    moreover have "(1::real) \<le> 2 ^ 52" by (rule one_le_power) simp
    ultimately show "(2::real) ^ 52 \<le> 2 ^ 53 - 1" by linarith
  qed simp
  finally show ?thesis unfolding maxf_def .
qed

lemma fin64_int_eqI:
  assumes "2 ^ 52 * 2 powi e \<le> \<bar>x\<bar>" and "\<bar>x\<bar> < 2 ^ 53 * 2 powi e" and "- 1074 \<le> e"
    and "\<bar>x - of_int m * 2 powi e\<bar> * 2 < 2 powi e" and "e \<le> 970"
  shows "fin64 x = Num (of_int m * 2 powi e)"
proof -
  have r: "rnd64 x = of_int m * 2 powi e" by (rule rnd64_eqI [OF assms(1-4)])
  define s :: real where "s = 2 powi e"
  define M :: real where "M = of_int m * s"
  have s: "0 < s" by (simp add: s_def)
  define B :: real where "B = 2 ^ 53 * s"
  have a: "\<bar>x - M\<bar> * 2 < s" using assms(4) by (simp add: M_def s_def)
  have b: "\<bar>x\<bar> < B" using assms(2) by (simp add: s_def B_def)
  have "\<bar>M\<bar> < B + s" using a b s by (auto simp: abs_if split: if_splits)
  then have "\<bar>M\<bar> < 2 ^ 53 * s + s" by (simp only: B_def)
  then have "\<bar>real_of_int m\<bar> * s < (2 ^ 53 + 1) * s"
    using s by (simp add: M_def abs_mult distrib_right del: power_numeral)
  then have "\<bar>real_of_int m\<bar> < 2 ^ 53 + 1"
    using s by (simp only: mult_less_cancel_right_pos)
  then have "real_of_int \<bar>m\<bar> < real_of_int (2 ^ 53 + 1)"
    by (simp del: power_numeral)
  then have "\<bar>m\<bar> < 2 ^ 53 + 1"
    by (rule iffD1 [OF of_int_less_iff])
  then have "\<bar>m\<bar> \<le> 2 ^ 53" by linarith
  then have "real_of_int \<bar>m\<bar> \<le> real_of_int (2 ^ 53)"
    by (rule iffD2 [OF of_int_le_iff])
  then have "\<bar>real_of_int m\<bar> \<le> 2 ^ 53"
    by (simp del: power_numeral)
  then have "\<bar>real_of_int m\<bar> * s \<le> 2 ^ 53 * s"
    using s by (intro mult_right_mono) simp_all
  also have "\<dots> \<le> maxf" unfolding s_def by (rule maxf_ge [OF assms(5)])
  finally have "\<bar>M\<bar> \<le> maxf"
    using s by (simp add: M_def abs_mult)
  then show ?thesis
    unfolding fin64_def r Let_def M_def s_def by (auto simp: abs_le_iff)
qed

lemma fin64_eqI:
  assumes "2 ^ 52 * 2 powi e \<le> \<bar>x\<bar>" and "\<bar>x\<bar> < 2 ^ 53 * 2 powi e" and "- 1074 \<le> e"
    and "y / 2 powi e \<in> \<int>" and "\<bar>x - y\<bar> * 2 < 2 powi e" and "e \<le> 970"
  shows "fin64 x = Num y"
proof -
  from assms(4) obtain m where "y / 2 powi e = of_int m" by (rule Ints_cases)
  then have y: "y = of_int m * 2 powi e" by (simp add: field_simps)
  show ?thesis
    unfolding y by (rule fin64_int_eqI [OF assms(1-3) _ assms(6)]) (use assms(5) y in simp)
qed

lemma fin64_zero: "fin64 0 = Num 0"
  by (simp add: fin64_def rnd64_zero maxf_def)

lemma sum64_3: "sum64 [a, b, c] = add64 (add64 (add64 (Num 0) a) b) c"
  by (simp add: sum64_def)

lemma rnd64_bound:
  assumes "\<bar>z\<bar> < 2 ^ 53 * 2 powi e" and "expo64 z = e"
  shows "\<bar>rnd64 z\<bar> \<le> 2 ^ 53 * 2 powi e"
proof -
  define s :: real where "s = 2 powi e"
  define m where "m = round_even (z / s)"
  define M :: real where "M = of_int m * s"
  define B :: real where "B = 2 ^ 53 * s"
  have s: "0 < s" by (simp add: s_def)
  have r: "rnd64 z = M" by (simp add: rnd64_def assms(2) M_def m_def s_def)
  have a: "\<bar>M - z\<bar> \<le> s / 2"
    using rnd64_abs_err [of z] by (simp add: r assms(2) s_def)
  have b: "\<bar>z\<bar> < B" using assms(1) by (simp add: s_def B_def)
  have "\<bar>M\<bar> < B + s" using a b s by (auto simp: abs_if split: if_splits)
  then have "\<bar>M\<bar> < 2 ^ 53 * s + s" by (simp only: B_def)
  then have "\<bar>real_of_int m\<bar> * s < (2 ^ 53 + 1) * s"
    using s by (simp add: M_def abs_mult distrib_right del: power_numeral)
  then have "\<bar>real_of_int m\<bar> < 2 ^ 53 + 1"
    using s by (simp only: mult_less_cancel_right_pos)
  then have "real_of_int \<bar>m\<bar> < real_of_int (2 ^ 53 + 1)"
    by (simp del: power_numeral)
  then have "\<bar>m\<bar> < 2 ^ 53 + 1"
    by (rule iffD1 [OF of_int_less_iff])
  then have "\<bar>m\<bar> \<le> 2 ^ 53" by linarith
  then have "real_of_int \<bar>m\<bar> \<le> real_of_int (2 ^ 53)"
    by (rule iffD2 [OF of_int_le_iff])
  then have "\<bar>real_of_int m\<bar> \<le> 2 ^ 53"
    by (simp del: power_numeral)
  then have "\<bar>real_of_int m\<bar> * s \<le> 2 ^ 53 * s"
    using s by (intro mult_right_mono) simp_all
  then show ?thesis
    using s by (simp add: r M_def abs_mult s_def del: power_numeral)
qed

lemma quietI:
  assumes "2 ^ 52 * 2 powi e \<le> \<bar>z\<bar>" and "\<bar>z\<bar> < 2 ^ 53 * 2 powi e"
    and "- 1074 \<le> e" and "e \<le> 970"
  shows "quiet z"
proof -
  have ex: "expo64 z = e" by (rule expo64_eqI [OF assms(1-3)])
  have "\<bar>rnd64 z\<bar> \<le> 2 ^ 53 * 2 powi e" by (rule rnd64_bound [OF assms(2) ex])
  also have "\<dots> \<le> maxf" by (rule maxf_ge [OF assms(4)])
  finally have m: "\<bar>rnd64 z\<bar> \<le> maxf" .
  define k where "k = nat (e + 1074)"
  have e: "e = int k - int 1074" using assms(3) by (simp add: k_def)
  have a: "2 ^ 52 * 2 powi e * 2 ^ 1074 \<le> \<bar>z\<bar> * (2 ^ 1074 :: real)"
    using assms(1) by (intro mult_right_mono) simp_all
  have b: "(2::real) ^ 52 * 2 powi e * 2 ^ 1074 = 2 ^ 52 * 2 ^ k"
    unfolding e by (simp only: powi_scale mult.assoc)
  have c: "(2::real) ^ 52 * 1 \<le> 2 ^ 52 * 2 ^ k"
    by (intro mult_left_mono one_le_power) simp_all
  have "(2::real) ^ 52 \<le> \<bar>z\<bar> * 2 ^ 1074"
  proof -
    from c have "(2::real) ^ 52 \<le> 2 ^ 52 * 2 ^ k" by (simp only: mult_1_right)
    also from a have "\<dots> \<le> \<bar>z\<bar> * 2 ^ 1074" by (simp only: b)
    finally show ?thesis .
  qed
  then show ?thesis using m by (simp add: quiet_def del: power_numeral)
qed

lemma quiet_0: "quiet 0"
  by (simp add: quiet_def rnd64_zero maxf_def)

subsection \<open>The loop in float64\<close>

lemma for_loop64_length:
  "length (for_loop64 ns np ocv r0 ip ic ks) = length ic"
  by (induction ns np ocv r0 ip ic ks rule: for_loop64.induct) simp_all

lemma for_loop64_nth:
  "k < length ic \<Longrightarrow>
   for_loop64 ns np ocv r0 ip ic ks ! k =
     (if k \<in> set ks then solve_i_cells64 ns np ocv r0 (solve_v_modules64 ocv r0 (ip ! k))
      else ic ! k)"
proof (induction ns np ocv r0 ip ic ks rule: for_loop64.induct)
  case (1 ns np ocv r0 ip ic)
  then show ?case by simp
next
  case (2 ns np ocv r0 ip ic j ks)
  then show ?case by (auto simp: nth_list_update)
qed

lemma i_cells64_nth:
  "k < length ip \<Longrightarrow>
   i_cells64 np ns ocv r0 ip ! k =
     (if 1 \<le> k then solve_i_cells64 ns np ocv r0 (solve_v_modules64 ocv r0 (ip ! k))
      else replicate ns (replicate np (Num 0)))"
  by (simp add: i_cells64_def for_loop64_nth)

lemma solve_v_modules64_length:
  "has_shape ns np ocv \<Longrightarrow> has_shape ns np r0 \<Longrightarrow>
   length (solve_v_modules64 ocv r0 ik) = ns"
  by (simp add: solve_v_modules64_def has_shape_def)

lemma solve_v_modules64_nth:
  assumes "has_shape ns np ocv" and "has_shape ns np r0" and "m < ns"
  shows "solve_v_modules64 ocv r0 ik ! m =
     div64 (sub64 (sum64 (map2 div64 (ocv ! m) (r0 ! m))) ik)
       (sum64 (map (div64 (Num 1)) (r0 ! m)))"
  using assms by (simp add: solve_v_modules64_def has_shape_def)

lemma solve_i_cells64_nth:
  assumes "has_shape ns np ocv" and "has_shape ns np r0" and "length v = ns"
    and "m < ns" and "p < np"
  shows "solve_i_cells64 ns np ocv r0 v ! m ! p = div64 (sub64 (ocv ! m ! p) (v ! m)) (r0 ! m ! p)"
proof -
  have l1: "length ocv = ns" and l2: "length r0 = ns"
    and r1: "length (ocv ! m) = np" and r2: "length (r0 ! m) = np"
    using assms by (simp_all add: has_shape_def list_all_length)
  show ?thesis
    using assms(3-5) l1 l2 r1 r2
    by (simp add: solve_i_cells64_def np_T_def)
qed

lemma solve_i_cells64_shape:
  "has_shape ns np ocv \<Longrightarrow> has_shape ns np r0 \<Longrightarrow> length v = ns \<Longrightarrow>
   has_shape ns np (solve_i_cells64 ns np ocv r0 v)"
  by (simp add: solve_i_cells64_def np_T_def has_shape_def list_all_length)

text \<open>The module voltage and the cell current of line 80 and 81, entry by entry.\<close>

lemma i_cells64_entry:
  assumes "has_shape ns np ocv" and "has_shape ns np r0"
    and "1 \<le> k" and "k < length ip" and "m < ns" and "p < np"
  shows "i_cells64 np ns ocv r0 ip ! k ! m ! p =
     div64
       (sub64 (ocv ! m ! p)
          (div64 (sub64 (sum64 (map2 div64 (ocv ! m) (r0 ! m))) (ip ! k))
             (sum64 (map (div64 (Num 1)) (r0 ! m)))))
       (r0 ! m ! p)"
proof -
  have len: "length (solve_v_modules64 ocv r0 (ip ! k)) = ns"
    by (rule solve_v_modules64_length [OF assms(1,2)])
  show ?thesis
    using assms(3,4)
    by (simp add: i_cells64_nth solve_i_cells64_nth [OF assms(1,2) len assms(5,6)]
        solve_v_modules64_nth [OF assms(1,2,5)])
qed

lemma i_cells64_row_length:
  assumes "has_shape ns np ocv" and "has_shape ns np r0"
    and "k < length ip" and "m < ns"
  shows "length (i_cells64 np ns ocv r0 ip ! k ! m) = np"
proof (cases "1 \<le> k")
  case True
  have len: "length (solve_v_modules64 ocv r0 (ip ! k)) = ns"
    by (rule solve_v_modules64_length [OF assms(1,2)])
  show ?thesis
    using solve_i_cells64_shape [OF assms(1,2) len] assms(3,4) True
    by (simp add: i_cells64_nth has_shape_def list_all_length)
next
  case False
  then show ?thesis using assms(3,4) by (simp add: i_cells64_nth)
qed

lemma i_cells64_zero:
  "ip \<noteq> [] \<Longrightarrow> m < ns \<Longrightarrow> p < np \<Longrightarrow> i_cells64 np ns ocv r0 ip ! 0 ! m ! p = Num 0"
  by (simp add: i_cells64_nth)

subsection \<open>Rounding errors\<close>

lemma u64_bounds: "0 < u64" "u64 < 1" "0 < 1 - u64" "1 - u64 \<le> 1"
  by (simp_all add: u64_def)

lemma pow_c_bounds: "0 < (1 - u64) ^ k" "(1 - u64) ^ k \<le> 1"
  using u64_bounds by (simp_all add: power_le_one)

lemma fac_pos: "fac k f \<Longrightarrow> 0 < f"
  unfolding fac_def using pow_c_bounds(1) [of k] by linarith

lemma fac_0: "fac 0 1"
  by (simp add: fac_def)

lemma fac_mono:
  assumes "fac j f" and "j \<le> k"
  shows "fac k f"
proof -
  have le: "(1 - u64) ^ k \<le> (1 - u64) ^ j"
    using assms(2) u64_bounds by (intro power_decreasing) simp_all
  have f: "0 < f" by (rule fac_pos [OF assms(1)])
  have "f * (1 - u64) ^ k \<le> f * (1 - u64) ^ j"
    using le f by (intro mult_left_mono) simp_all
  then show ?thesis
    using assms(1) le unfolding fac_def by linarith
qed

lemma fac_mult:
  assumes "fac j f" and "fac k g"
  shows "fac (j + k) (f * g)"
proof -
  have f: "0 < f" and g: "0 < g" by (rule fac_pos [OF assms(1)], rule fac_pos [OF assms(2)])
  have "(1 - u64) ^ j * (1 - u64) ^ k \<le> f * g"
    using assms f g pow_c_bounds(1) unfolding fac_def
    by (intro mult_mono) (simp_all add: less_imp_le)
  moreover have "(f * (1 - u64) ^ j) * (g * (1 - u64) ^ k) \<le> 1 * 1"
    using assms f g pow_c_bounds(1) unfolding fac_def
    by (intro mult_mono) (simp_all add: less_imp_le)
  ultimately show ?thesis
    unfolding fac_def by (simp add: power_add mult_ac)
qed

lemma fac_inverse:
  assumes "fac k f"
  shows "fac k (1 / f)"
proof -
  have f: "0 < f" by (rule fac_pos [OF assms])
  show ?thesis
    using assms f unfolding fac_def by (simp add: field_simps)
qed

lemma fac_div:
  assumes "fac j f" and "fac k g"
  shows "fac (j + k) (f / g)"
  using fac_mult [OF assms(1) fac_inverse [OF assms(2)]] by simp

lemma quiet_fin64:
  assumes "quiet z"
  shows "\<exists>f. fac 1 f \<and> fin64 z = Num (z * f)"
proof -
  have m: "\<bar>rnd64 z\<bar> \<le> maxf" using assms by (simp add: quiet_def)
  then have fin: "fin64 z = Num (rnd64 z)"
    unfolding fin64_def Let_def by (auto simp: abs_le_iff)
  show ?thesis
  proof (cases "z = 0")
    case True
    have "fac 1 1" by (rule fac_mono [OF fac_0]) simp
    then show ?thesis using fin True by (auto simp: rnd64_zero)
  next
    case False
    then have n: "2 ^ 52 \<le> \<bar>z\<bar> * 2 ^ 1074" using assms by (simp add: quiet_def)
    have e: "\<bar>rnd64 z - z\<bar> \<le> \<bar>z\<bar> * u64"
      using rnd64_rel_err [OF n] by (simp add: u64_def)
    define f where "f = rnd64 z / z"
    have rf: "rnd64 z = z * f" using False by (simp add: f_def)
    have "\<bar>z\<bar> * \<bar>f - 1\<bar> \<le> \<bar>z\<bar> * u64"
      using e unfolding rf by (simp add: abs_mult [symmetric] right_diff_distrib)
    then have d: "\<bar>f - 1\<bar> \<le> u64" using False by simp
    have u: "0 < u64" "u64 < 1" by (rule u64_bounds)+
    have "f * (1 - u64) \<le> (1 + u64) * (1 - u64)"
      using d u by (intro mult_right_mono) (auto simp: abs_le_iff)
    also have "\<dots> = 1 - u64 * u64" by (simp add: algebra_simps)
    also have "\<dots> \<le> 1" using u by simp
    finally have "f * (1 - u64) \<le> 1" .
    moreover have "1 - u64 \<le> f" using d by (auto simp: abs_le_iff)
    ultimately have "fac 1 f" by (simp add: fac_def)
    then show ?thesis using fin rf by auto
  qed
qed

lemma recip_gap:
  fixes c :: real
  assumes "0 < c" and "c \<le> 1"
  shows "1 - c \<le> 1 / c - 1"
proof -
  have "1 / c - 1 - (1 - c) = (1 - c) * (1 - c) / c"
    using assms(1) by (simp add: field_simps)
  moreover have "0 \<le> (1 - c) * (1 - c) / c"
    using assms by (intro divide_nonneg_pos mult_nonneg_nonneg) simp_all
  ultimately show ?thesis by linarith
qed

lemma recip_split:
  fixes a b :: real
  assumes "0 < a" and "0 < b"
  shows "1 / b * (1 / a - 1) = 1 / (a * b) - 1 / b"
  using assms by (simp add: field_simps)

lemma fac_err:
  assumes "fac k f"
  shows "\<bar>f - 1\<bar> \<le> err64 k"
proof -
  let ?c = "(1 - u64) ^ k"
  have c: "0 < ?c" "?c \<le> 1" by (rule pow_c_bounds)+
  have f: "?c \<le> f" "f * ?c \<le> 1" using assms by (simp_all add: fac_def)
  have up: "f \<le> 1 / ?c" using f(2) c(1) by (simp add: field_simps)
  have "1 - ?c \<le> 1 / ?c - 1" by (rule recip_gap [OF c])
  then show ?thesis
    unfolding err64_def using f(1) up by (auto simp: abs_le_iff) 
qed

lemma err64_mono: "j \<le> k \<Longrightarrow> err64 j \<le> err64 k"
proof -
  assume jk: "j \<le> k"
  have "(1 - u64) ^ k \<le> (1 - u64) ^ j"
    using jk u64_bounds by (intro power_decreasing) simp_all
  then have "1 / (1 - u64) ^ j \<le> 1 / (1 - u64) ^ k"
    using pow_c_bounds(1) by (intro divide_left_mono) simp_all
  then show ?thesis by (simp add: err64_def)
qed

lemma err64_nonneg: "0 \<le> err64 k"
  using pow_c_bounds [of k] by (simp add: err64_def)

lemma fac_err_prod:
  assumes "fac j f" and "fac k g"
  shows "\<bar>g * (f - 1)\<bar> \<le> err64 (j + k)"
proof -
  let ?cj = "(1 - u64) ^ j" and ?ck = "(1 - u64) ^ k"
  have cj: "0 < ?cj" "?cj \<le> 1" and ck: "0 < ?ck" "?ck \<le> 1" by (rule pow_c_bounds)+
  have g: "0 < g" by (rule fac_pos [OF assms(2)])
  have gu: "g \<le> 1 / ?ck" using assms(2) ck(1) by (simp add: fac_def field_simps)
  have "\<bar>g * (f - 1)\<bar> = g * \<bar>f - 1\<bar>" using g by (simp add: abs_mult)
  also have "\<dots> \<le> (1 / ?ck) * err64 j"
    using gu fac_err [OF assms(1)] g ck by (intro mult_mono) simp_all
  also have "\<dots> = 1 / (?cj * ?ck) - 1 / ?ck"
    unfolding err64_def by (rule recip_split [OF cj(1) ck(1)])
  also have "\<dots> \<le> 1 / (?cj * ?ck) - 1"
    using ck by (simp add: field_simps)
  finally show ?thesis by (simp add: err64_def power_add)
qed

lemma err64_le:
  assumes "real k * (real k + 1) \<le> 2 ^ 53"
  shows "err64 k \<le> (real k + 1) * u64"
proof -
  have u: "0 < u64" "u64 < 1" by (rule u64_bounds)+
  have ku: "real k * (real k + 1) * u64 \<le> 1"
    using assms by (simp add: u64_def field_simps)
  have ku1: "real k * u64 < 1"
  proof (cases "k = 0")
    case True
    then show ?thesis by simp
  next
    case False
    then have k: "1 \<le> real k" by simp
    have "real k * u64 * 2 \<le> real k * u64 * (real k + 1)"
      using u k by (intro mult_left_mono) simp_all
    also have "\<dots> \<le> 1" using ku by (simp add: mult_ac)
    finally have "real k * u64 * 2 \<le> 1" .
    moreover have "0 < real k * u64" using u k by simp
    ultimately show ?thesis by linarith
  qed
  have "1 + real k * (- u64) \<le> (1 + (- u64)) ^ k"
    by (rule Bernoulli_inequality) (use u in simp)
  then have b: "1 - real k * u64 \<le> (1 - u64) ^ k" by simp
  have pos: "0 < 1 - real k * u64" using ku1 by simp
  have "1 / (1 - u64) ^ k \<le> 1 / (1 - real k * u64)"
    using b pos by (intro divide_left_mono) (simp_all add: pow_c_bounds)
  moreover have "1 / (1 - real k * u64) - 1 \<le> (real k + 1) * u64"
  proof -
    have "1 \<le> (1 + (real k + 1) * u64) * (1 - real k * u64)"
    proof -
      have "(1 + (real k + 1) * u64) * (1 - real k * u64) =
            1 + u64 * (1 - real k * (real k + 1) * u64)"
        by (simp add: algebra_simps)
      moreover have "0 \<le> u64 * (1 - real k * (real k + 1) * u64)"
        using u ku by (intro mult_nonneg_nonneg) simp_all
      ultimately show ?thesis by linarith
    qed
    then have "1 / (1 - real k * u64) \<le> 1 + (real k + 1) * u64"
      using pos by (simp add: field_simps)
    then show ?thesis by simp
  qed
  ultimately show ?thesis by (simp add: err64_def)
qed

lemma quiet_add_Num:
  assumes "quiet_add (Num a) (Num b)"
  shows "\<exists>f. fac 1 f \<and> add64 (Num a) (Num b) = Num ((a + b) * f)"
  using quiet_fin64 [of "a + b"] assms by simp

lemma quiet_sub_Num:
  assumes "quiet_sub (Num a) (Num b)"
  shows "\<exists>f. fac 1 f \<and> sub64 (Num a) (Num b) = Num ((a - b) * f)"
  using quiet_fin64 [of "a - b"] assms by simp

lemma quiet_div_Num:
  assumes "quiet_div (Num a) (Num b)"
  shows "b \<noteq> 0 \<and> (\<exists>f. fac 1 f \<and> div64 (Num a) (Num b) = Num (a / b * f))"
  using quiet_fin64 [of "a / b"] assms by simp

lemma sum64_single: "sum64 [a] = add64 (Num 0) a"
  by (simp add: sum64_def)

text \<open>The single cell: eight roundings between the pack current and the cell current.\<close>

lemma single_cell64:
  assumes "quiet_module [Num x] [Num r] (Num c)"
  shows "\<exists>y. div64 (sub64 (Num x)
            (div64 (sub64 (sum64 (map2 div64 [Num x] [Num r])) (Num c))
               (sum64 (map (div64 (Num 1)) [Num r])))) (Num r) = Num y \<and>
          \<bar>y - c\<bar> \<le> err64 8 * (\<bar>c\<bar> + \<bar>x / r\<bar>)"
proof -
  define a0 where "a0 = div64 (Num x) (Num r)"
  define A0 where "A0 = add64 (Num 0) a0"
  define N0 where "N0 = sub64 A0 (Num c)"
  define b0 where "b0 = div64 (Num 1) (Num r)"
  define B0 where "B0 = add64 (Num 0) b0"
  define V0 where "V0 = div64 N0 B0"
  define d0 where "d0 = sub64 (Num x) V0"
  define i0 where "i0 = div64 d0 (Num r)"
  note defs = a0_def A0_def N0_def b0_def B0_def V0_def d0_def i0_def
  note ops = div64.simps add64.simps sub64.simps quiet_div.simps quiet_add.simps quiet_sub.simps
  have q: "quiet_div (Num x) (Num r)" "quiet_add (Num 0) a0" "quiet_sub A0 (Num c)"
    "quiet_div (Num 1) (Num r)" "quiet_add (Num 0) b0" "quiet_div N0 B0"
    "quiet_sub (Num x) V0" "quiet_div d0 (Num r)"
    using assms by (simp_all add: quiet_module_def Let_def sum64_single defs del: ops)
  have goal: "div64 (sub64 (Num x)
            (div64 (sub64 (sum64 (map2 div64 [Num x] [Num r])) (Num c))
               (sum64 (map (div64 (Num 1)) [Num r])))) (Num r) = i0"
    by (simp add: sum64_single defs del: ops)
  from quiet_div_Num [OF q(1)] obtain f1 where r: "r \<noteq> 0" and f1: "fac 1 f1"
    and a: "a0 = Num (x / r * f1)" unfolding a0_def by blast
  from quiet_add_Num [OF q(2) [unfolded a]] obtain f2 where f2: "fac 1 f2"
    and A: "A0 = Num (x / r * f1 * f2)" unfolding A0_def a by auto
  from quiet_sub_Num [OF q(3) [unfolded A]] obtain f3 where f3: "fac 1 f3"
    and N: "N0 = Num ((x / r * f1 * f2 - c) * f3)" unfolding N0_def A by blast
  from quiet_div_Num [OF q(4)] obtain f4 where f4: "fac 1 f4"
    and b: "b0 = Num (1 / r * f4)" unfolding b0_def by blast
  from quiet_add_Num [OF q(5) [unfolded b]] obtain f5 where f5: "fac 1 f5"
    and B: "B0 = Num (1 / r * f4 * f5)" unfolding B0_def b by auto
  from quiet_div_Num [OF q(6) [unfolded N B]] obtain f6 where f6: "fac 1 f6"
    and V: "V0 = Num ((x / r * f1 * f2 - c) * f3 / (1 / r * f4 * f5) * f6)"
    unfolding V0_def N B by blast
  define v where "v = (x / r * f1 * f2 - c) * f3 / (1 / r * f4 * f5) * f6"
  have V': "V0 = Num v" by (simp only: V v_def)
  from quiet_sub_Num [OF q(7) [unfolded V']] obtain f7 where f7: "fac 1 f7"
    and d: "d0 = Num ((x - v) * f7)" unfolding d0_def V' by blast
  from quiet_div_Num [OF q(8) [unfolded d]] obtain f8 where f8: "fac 1 f8"
    and i: "i0 = Num ((x - v) * f7 / r * f8)" unfolding i0_def d by blast
  define y where "y = (x - v) * f7 / r * f8"
  have val: "div64 (sub64 (Num x)
            (div64 (sub64 (sum64 (map2 div64 [Num x] [Num r])) (Num c))
               (sum64 (map (div64 (Num 1)) [Num r])))) (Num r) = Num y"
    by (simp only: goal i y_def)
  define h where "h = f1 * f2"
  define k where "k = f3 * f6 / (f4 * f5)"
  define g where "g = f7 * f8"
  have h: "fac 2 h" unfolding h_def by (rule fac_mono [OF fac_mult [OF f1 f2]]) simp
  have k: "fac 4 k" unfolding k_def
    by (rule fac_mono [OF fac_div [OF fac_mult [OF f3 f6] fac_mult [OF f4 f5]]]) simp
  have g: "fac 2 g" unfolding g_def by (rule fac_mono [OF fac_mult [OF f7 f8]]) simp
  have p4: "f4 \<noteq> 0" "f5 \<noteq> 0"
    using fac_pos [OF f4] fac_pos [OF f5] by simp_all
  define X where "X = x / r"
  define w where "w = X * h - c"
  have v: "v = w * r * k"
    unfolding v_def w_def X_def h_def k_def using r p4 by (simp add: mult.assoc)
  have "y = (X - w * k) * g"
  proof -
    have "(x - w * r * k) * f7 / r * f8 = (x / r - w * k) * (f7 * f8)"
      using r by (simp add: diff_divide_distrib left_diff_distrib)
    then show ?thesis by (simp only: y_def v g_def X_def)
  qed
  then have "y - c = X * (- (g * (h * k - 1))) + c * (g * k - 1)"
    unfolding w_def by (simp add: algebra_simps)
  then have "\<bar>y - c\<bar> \<le> \<bar>X * (- (g * (h * k - 1)))\<bar> + \<bar>c * (g * k - 1)\<bar>"
    by (simp only: abs_triangle_ineq)
  then have t: "\<bar>y - c\<bar> \<le> \<bar>X\<bar> * \<bar>g * (h * k - 1)\<bar> + \<bar>c\<bar> * \<bar>g * k - 1\<bar>"
    by (simp only: abs_mult abs_minus)
  have e1: "\<bar>g * (h * k - 1)\<bar> \<le> err64 8"
    using fac_err_prod [OF fac_mult [OF h k] g] by simp
  have e2: "\<bar>g * k - 1\<bar> \<le> err64 8"
    using fac_err [OF fac_mult [OF g k]] err64_mono [of 6 8] by simp
  have "\<bar>X\<bar> * \<bar>g * (h * k - 1)\<bar> + \<bar>c\<bar> * \<bar>g * k - 1\<bar> \<le> \<bar>X\<bar> * err64 8 + \<bar>c\<bar> * err64 8"
    by (intro add_mono mult_left_mono e1 e2) simp_all
  with t have "\<bar>y - c\<bar> \<le> \<bar>X\<bar> * err64 8 + \<bar>c\<bar> * err64 8" by linarith
  then have "\<bar>y - c\<bar> \<le> err64 8 * (\<bar>c\<bar> + \<bar>x / r\<bar>)"
    by (simp add: algebra_simps X_def)
  then show ?thesis using val by blast
qed

text \<open>Two runs, evaluated operation by operation.\<close>

lemma single_cell_example:
  "quiet_module [fin64 (37 / 10)] [fin64 (1 / 100)] (Num 32)"
  "i_cells64 1 1 [[fin64 (37 / 10)]] [[fin64 (1 / 100)]] [Num 30, Num 31, Num 32] ! 2 ! 0 ! 0 =
     Num (1125899906842625 / 35184372088832)"
proof -
  have s1: "fin64 (37 / 10) = Num (4165829655317709 / 1125899906842624)"
    by (rule fin64_eqI [where e = "- 51"]; simp)
  have s2: "fin64 (1 / 100) = Num (5764607523034235 / 576460752303423488)"
    by (rule fin64_eqI [where e = "- 59"]; simp)
  have s3: "div64 (Num (4165829655317709 / 1125899906842624)) (Num (5764607523034235 / 576460752303423488)) = Num 370"
  proof -
    have "fin64 ((4165829655317709 / 1125899906842624) / (5764607523034235 / 576460752303423488)) = Num 370"
      by (rule fin64_eqI [where e = "- 44"]; simp)
    then show ?thesis by simp
  qed
  have qs3: "quiet_div (Num (4165829655317709 / 1125899906842624)) (Num (5764607523034235 / 576460752303423488))"
  proof -
    have "quiet ((4165829655317709 / 1125899906842624) / (5764607523034235 / 576460752303423488))"
      by (rule quietI [where e = "- 44"]; simp)
    then show ?thesis by simp
  qed
  have s4: "add64 (Num 0) (Num 370) = Num 370"
  proof -
    have "fin64 (0 + 370) = Num 370"
      by (rule fin64_eqI [where e = "- 44"]; simp)
    then show ?thesis by simp
  qed
  have qs4: "quiet_add (Num 0) (Num 370)"
  proof -
    have "quiet (0 + 370)"
      by (rule quietI [where e = "- 44"]; simp)
    then show ?thesis by simp
  qed
  have s5: "sub64 (Num 370) (Num 32) = Num 338"
  proof -
    have "fin64 (370 - 32) = Num 338"
      by (rule fin64_eqI [where e = "- 44"]; simp)
    then show ?thesis by simp
  qed
  have qs5: "quiet_sub (Num 370) (Num 32)"
  proof -
    have "quiet (370 - 32)"
      by (rule quietI [where e = "- 44"]; simp)
    then show ?thesis by simp
  qed
  have s6: "div64 (Num 1) (Num (5764607523034235 / 576460752303423488)) = Num 100"
  proof -
    have "fin64 (1 / (5764607523034235 / 576460752303423488)) = Num 100"
      by (rule fin64_eqI [where e = "- 46"]; simp)
    then show ?thesis by simp
  qed
  have qs6: "quiet_div (Num 1) (Num (5764607523034235 / 576460752303423488))"
  proof -
    have "quiet (1 / (5764607523034235 / 576460752303423488))"
      by (rule quietI [where e = "- 46"]; simp)
    then show ?thesis by simp
  qed
  have s7: "add64 (Num 0) (Num 100) = Num 100"
  proof -
    have "fin64 (0 + 100) = Num 100"
      by (rule fin64_eqI [where e = "- 46"]; simp)
    then show ?thesis by simp
  qed
  have qs7: "quiet_add (Num 0) (Num 100)"
  proof -
    have "quiet (0 + 100)"
      by (rule quietI [where e = "- 46"]; simp)
    then show ?thesis by simp
  qed
  have s8: "div64 (Num 338) (Num 100) = Num (3805541685128069 / 1125899906842624)"
  proof -
    have "fin64 (338 / 100) = Num (3805541685128069 / 1125899906842624)"
      by (rule fin64_eqI [where e = "- 51"]; simp)
    then show ?thesis by simp
  qed
  have qs8: "quiet_div (Num 338) (Num 100)"
  proof -
    have "quiet (338 / 100)"
      by (rule quietI [where e = "- 51"]; simp)
    then show ?thesis by simp
  qed
  have s9: "sub64 (Num (4165829655317709 / 1125899906842624)) (Num (3805541685128069 / 1125899906842624)) = Num (45035996273705 / 140737488355328)"
  proof -
    have "fin64 ((4165829655317709 / 1125899906842624) - (3805541685128069 / 1125899906842624)) = Num (45035996273705 / 140737488355328)"
      by (rule fin64_eqI [where e = "- 54"]; simp)
    then show ?thesis by simp
  qed
  have qs9: "quiet_sub (Num (4165829655317709 / 1125899906842624)) (Num (3805541685128069 / 1125899906842624))"
  proof -
    have "quiet ((4165829655317709 / 1125899906842624) - (3805541685128069 / 1125899906842624))"
      by (rule quietI [where e = "- 54"]; simp)
    then show ?thesis by simp
  qed
  have s10: "div64 (Num (45035996273705 / 140737488355328)) (Num (5764607523034235 / 576460752303423488)) = Num (1125899906842625 / 35184372088832)"
  proof -
    have "fin64 ((45035996273705 / 140737488355328) / (5764607523034235 / 576460752303423488)) = Num (1125899906842625 / 35184372088832)"
      by (rule fin64_eqI [where e = "- 47"]; simp)
    then show ?thesis by simp
  qed
  have qs10: "quiet_div (Num (45035996273705 / 140737488355328)) (Num (5764607523034235 / 576460752303423488))"
  proof -
    have "quiet ((45035996273705 / 140737488355328) / (5764607523034235 / 576460752303423488))"
      by (rule quietI [where e = "- 47"]; simp)
    then show ?thesis by simp
  qed
  show "quiet_module [fin64 (37 / 10)] [fin64 (1 / 100)] (Num 32)"
    by (simp only: s1 s2 quiet_module_def Let_def sum64_single list.map zip_Cons_Cons zip_Nil prod.case
        list_all2_Cons list_all2_Nil list.pred_inject quiet_sum.simps simp_thms s3 s4 s5 s6 s7 s8 s9 s10 qs3 qs4 qs5 qs6 qs7 qs8 qs9 qs10)
  have h: "(1::nat) \<le> 2" "2 < length [Num 30, Num 31, Num 32]"
    by simp_all
  have sh: "has_shape 1 1 [[Num (4165829655317709 / 1125899906842624)]]" "has_shape 1 1 [[Num (5764607523034235 / 576460752303423488)]]"
    by (simp_all add: has_shape_def)
  have "i_cells64 1 1 [[Num (4165829655317709 / 1125899906842624)]] [[Num (5764607523034235 / 576460752303423488)]] [Num 30, Num 31, Num 32] ! 2 ! 0 ! 0 = Num (1125899906842625 / 35184372088832)"
    using i_cells64_entry [OF sh h, of 0 0]
    by (simp add: sum64_single s3 s4 s5 s6 s7 s8 s9 s10 del: div64.simps add64.simps sub64.simps)
  then show "i_cells64 1 1 [[fin64 (37 / 10)]] [[fin64 (1 / 100)]] [Num 30, Num 31, Num 32] ! 2 ! 0 ! 0 =
     Num (1125899906842625 / 35184372088832)"
    by (simp only: s1 s2)
qed

lemma scenario_example:
  assumes "1 \<le> t" and "t < n" and "m < 2" and "p < 3"
  shows "i_cells64 3 2 (replicate 2 (replicate 3 (fin64 (37 / 10))))
           (replicate 2 (replicate 3 (fin64 (1 / 100)))) (replicate n (fin64 30)) ! t ! m ! p =
         Num (5629499534213125 / 562949953421312)"
proof -
  have s1: "fin64 (37 / 10) = Num (4165829655317709 / 1125899906842624)"
    by (rule fin64_eqI [where e = "- 51"]; simp)
  have s2: "fin64 (1 / 100) = Num (5764607523034235 / 576460752303423488)"
    by (rule fin64_eqI [where e = "- 59"]; simp)
  have s3: "fin64 (30) = Num 30"
    by (rule fin64_eqI [where e = "- 48"]; simp)
  have s4: "div64 (Num (4165829655317709 / 1125899906842624)) (Num (5764607523034235 / 576460752303423488)) = Num 370"
  proof -
    have "fin64 ((4165829655317709 / 1125899906842624) / (5764607523034235 / 576460752303423488)) = Num 370"
      by (rule fin64_eqI [where e = "- 44"]; simp)
    then show ?thesis by simp
  qed
  have s5: "add64 (Num 0) (Num 370) = Num 370"
  proof -
    have "fin64 (0 + 370) = Num 370"
      by (rule fin64_eqI [where e = "- 44"]; simp)
    then show ?thesis by simp
  qed
  have s6: "add64 (Num 370) (Num 370) = Num 740"
  proof -
    have "fin64 (370 + 370) = Num 740"
      by (rule fin64_eqI [where e = "- 43"]; simp)
    then show ?thesis by simp
  qed
  have s7: "add64 (Num 740) (Num 370) = Num 1110"
  proof -
    have "fin64 (740 + 370) = Num 1110"
      by (rule fin64_eqI [where e = "- 42"]; simp)
    then show ?thesis by simp
  qed
  have s8: "sub64 (Num 1110) (Num 30) = Num 1080"
  proof -
    have "fin64 (1110 - 30) = Num 1080"
      by (rule fin64_eqI [where e = "- 42"]; simp)
    then show ?thesis by simp
  qed
  have s9: "div64 (Num 1) (Num (5764607523034235 / 576460752303423488)) = Num 100"
  proof -
    have "fin64 (1 / (5764607523034235 / 576460752303423488)) = Num 100"
      by (rule fin64_eqI [where e = "- 46"]; simp)
    then show ?thesis by simp
  qed
  have s10: "add64 (Num 0) (Num 100) = Num 100"
  proof -
    have "fin64 (0 + 100) = Num 100"
      by (rule fin64_eqI [where e = "- 46"]; simp)
    then show ?thesis by simp
  qed
  have s11: "add64 (Num 100) (Num 100) = Num 200"
  proof -
    have "fin64 (100 + 100) = Num 200"
      by (rule fin64_eqI [where e = "- 45"]; simp)
    then show ?thesis by simp
  qed
  have s12: "add64 (Num 200) (Num 100) = Num 300"
  proof -
    have "fin64 (200 + 100) = Num 300"
      by (rule fin64_eqI [where e = "- 44"]; simp)
    then show ?thesis by simp
  qed
  have s13: "div64 (Num 1080) (Num 300) = Num (8106479329266893 / 2251799813685248)"
  proof -
    have "fin64 (1080 / 300) = Num (8106479329266893 / 2251799813685248)"
      by (rule fin64_eqI [where e = "- 51"]; simp)
    then show ?thesis by simp
  qed
  have s14: "sub64 (Num (4165829655317709 / 1125899906842624)) (Num (8106479329266893 / 2251799813685248)) = Num (225179981368525 / 2251799813685248)"
  proof -
    have "fin64 ((4165829655317709 / 1125899906842624) - (8106479329266893 / 2251799813685248)) = Num (225179981368525 / 2251799813685248)"
      by (rule fin64_eqI [where e = "- 56"]; simp)
    then show ?thesis by simp
  qed
  have s15: "div64 (Num (225179981368525 / 2251799813685248)) (Num (5764607523034235 / 576460752303423488)) = Num (5629499534213125 / 562949953421312)"
  proof -
    have "fin64 ((225179981368525 / 2251799813685248) / (5764607523034235 / 576460752303423488)) = Num (5629499534213125 / 562949953421312)"
      by (rule fin64_eqI [where e = "- 49"]; simp)
    then show ?thesis by simp
  qed
  have sh: "has_shape 2 3 (replicate 2 (replicate 3 (Num (4165829655317709 / 1125899906842624))))"
    "has_shape 2 3 (replicate 2 (replicate 3 (Num (5764607523034235 / 576460752303423488))))"
    by (simp_all add: has_shape_def list_all_length)
  have t: "t < length (replicate n (Num 30))" using assms(2) by simp
  have r3: "replicate 3 y = [y, y, y]" for y :: f64
    by (simp add: numeral_3_eq_3)
  show ?thesis
    unfolding s1 s2 s3
    using i_cells64_entry [OF sh assms(1) t assms(3,4)] assms(2,3,4)
    by (simp del: div64.simps add64.simps sub64.simps,
        simp add: r3 sum64_3 s4 s5 s6 s7 s8 s9 s10 s11 s12 s13 s14 s15 del: div64.simps add64.simps sub64.simps)
qed

section \<open>The claims\<close>






text \<open>
  Claim C3, as amended. With \<open>n_series = 2\<close>, \<open>n_parallel = 3\<close>, every \<open>r0_cells\<close> entry
  \<open>0.01\<close>, every \<open>ocv_cells\<close> entry \<open>3.7\<close> and \<open>i_pack\<close> constant at 30 A, every cell
  carries at every timestep \<open>t \<ge> 1\<close> the float \<open>10.000000000000009\<close>, which is
  \<open>5629499534213125 / 2\<^sup>4\<^sup>9\<close>: the three cells of a module share the whole pack
  current, 10 A each to within the relative tolerance \<open>1e-9\<close>.
\<close>

theorem example_scenario:
  assumes "1 \<le> t" and "t < n" and "m < 2" and "p < 3"
  shows "i_cells64 3 2 (replicate 2 (replicate 3 (fin64 (37 / 10))))
           (replicate 2 (replicate 3 (fin64 (1 / 100)))) (replicate n (fin64 30)) ! t ! m ! p =
         Num (5629499534213125 / 562949953421312) \<and>
         \<bar>5629499534213125 / 562949953421312 - 10\<bar> \<le> (10 :: real) / 10 ^ 9"
  using scenario_example [OF assms] by simp

theorem example_scenario_witness:
  "(1::nat) \<le> 2 \<and> (2::nat) < 4 \<and> (1::nat) < 2 \<and> (2::nat) < 3 \<and>
   i_cells64 3 2 (replicate 2 (replicate 3 (fin64 (37 / 10))))
     (replicate 2 (replicate 3 (fin64 (1 / 100)))) (replicate 4 (fin64 30)) ! 2 ! 1 ! 2 =
   Num (5629499534213125 / 562949953421312)"
proof -
  have h: "(1::nat) \<le> 2" "(2::nat) < 4" "(1::nat) < 2" "(2::nat) < 3"
    by simp_all
  show ?thesis
    using h example_scenario [OF h] by blast
qed

text \<open>
  The claim as stated fails at every timestep: the first cell carries 0 A at timestep 0,
  which the loop skips, and the float \<open>10.000000000000009\<close>, not 5 A, at timestep 1.
\<close>

theorem example_scenario_counterexample:
  "i_cells64 3 2 (replicate 2 (replicate 3 (fin64 (37 / 10))))
     (replicate 2 (replicate 3 (fin64 (1 / 100)))) (replicate 2 (fin64 30)) ! 1 ! 0 ! 0 =
   Num (5629499534213125 / 562949953421312) \<and>
   Num (5629499534213125 / 562949953421312) \<noteq> Num 5 \<and>
   i_cells64 3 2 (replicate 2 (replicate 3 (fin64 (37 / 10))))
     (replicate 2 (replicate 3 (fin64 (1 / 100)))) (replicate 2 (fin64 30)) ! 0 ! 0 ! 0 =
   Num 0 \<and>
   Num 0 \<noteq> Num 5"
proof -
  have a: "i_cells64 3 2 (replicate 2 (replicate 3 (fin64 (37 / 10))))
     (replicate 2 (replicate 3 (fin64 (1 / 100)))) (replicate 2 (fin64 30)) ! 1 ! 0 ! 0 =
   Num (5629499534213125 / 562949953421312)"
    by (rule scenario_example) simp_all
  have b: "i_cells64 3 2 (replicate 2 (replicate 3 (fin64 (37 / 10))))
     (replicate 2 (replicate 3 (fin64 (1 / 100)))) (replicate 2 (fin64 30)) ! 0 ! 0 ! 0 =
   Num 0"
    by (rule i_cells64_zero) simp_all
  show ?thesis
    using a b by simp
qed

text \<open>
  Claim C4, as amended. In a pack of one cell (\<open>n_series = 1\<close>, \<open>n_parallel = 1\<close>), at every
  timestep \<open>t \<ge> 1\<close> at which lines 80 and 81 signal no overflow, no underflow and no
  division by zero, the current of the cell is \<open>i_pack[t]\<close> up to the rounding of float64:
  it is a finite float that differs from \<open>i_pack[t]\<close> by at most
  \<open>9 * 2\<^sup>-\<^sup>5\<^sup>3 * (\<bar>i_pack[t]\<bar> + \<bar>ocv / r0\<bar>)\<close>, and so by at most \<open>1e-9 * \<bar>i_pack[t]\<bar>\<close> when
  \<open>\<bar>ocv / r0\<bar> \<le> 1e5 * \<bar>i_pack[t]\<bar>\<close>. It need not be \<open>i_pack[t]\<close> exactly.
\<close>

theorem single_cell_pack:
  assumes "1 \<le> t" and "t < length ip" and "ip ! t = Num c"
    and "quiet_module [Num x] [Num r] (Num c)"
  shows "\<exists>y. i_cells64 1 1 [[Num x]] [[Num r]] ip ! t ! 0 ! 0 = Num y \<and>
     \<bar>y - c\<bar> \<le> 9 / 2 ^ 53 * (\<bar>c\<bar> + \<bar>x / r\<bar>) \<and>
     (\<bar>x / r\<bar> \<le> 10 ^ 5 * \<bar>c\<bar> \<longrightarrow> \<bar>y - c\<bar> \<le> \<bar>c\<bar> / 10 ^ 9)"
proof -
  have sh: "has_shape 1 1 [[Num x]]" "has_shape 1 1 [[Num r]]"
    by (simp_all add: has_shape_def)
  have entry: "i_cells64 1 1 [[Num x]] [[Num r]] ip ! t ! 0 ! 0 =
      div64 (sub64 (Num x)
        (div64 (sub64 (sum64 (map2 div64 [Num x] [Num r])) (Num c))
           (sum64 (map (div64 (Num 1)) [Num r])))) (Num r)"
    using i_cells64_entry [OF sh assms(1,2), of 0 0] by (simp only: assms(3)) simp
  from single_cell64 [OF assms(4)] obtain y where
    y: "i_cells64 1 1 [[Num x]] [[Num r]] ip ! t ! 0 ! 0 = Num y"
    and b: "\<bar>y - c\<bar> \<le> err64 8 * (\<bar>c\<bar> + \<bar>x / r\<bar>)"
    unfolding entry by blast
  have e8: "err64 8 \<le> 9 / 2 ^ 53"
    using err64_le [of 8] by (simp add: u64_def)
  have "err64 8 * (\<bar>c\<bar> + \<bar>x / r\<bar>) \<le> 9 / 2 ^ 53 * (\<bar>c\<bar> + \<bar>x / r\<bar>)"
    using e8 by (intro mult_right_mono) simp_all
  with b have b9: "\<bar>y - c\<bar> \<le> 9 / 2 ^ 53 * (\<bar>c\<bar> + \<bar>x / r\<bar>)" by linarith
  have tol: "\<bar>y - c\<bar> \<le> \<bar>c\<bar> / 10 ^ 9" if "\<bar>x / r\<bar> \<le> 10 ^ 5 * \<bar>c\<bar>"
  proof -
    have "9 / 2 ^ 53 * (\<bar>c\<bar> + \<bar>x / r\<bar>) \<le> 9 / 2 ^ 53 * (\<bar>c\<bar> + 10 ^ 5 * \<bar>c\<bar>)"
      using that by (intro mult_left_mono add_left_mono) simp_all
    also have "\<dots> \<le> \<bar>c\<bar> / 10 ^ 9" by simp
    finally show ?thesis using b9 by linarith
  qed
  show ?thesis using y b9 tol by blast
qed

text \<open>
  The theorem at \<open>ocv = 3.7\<close>, \<open>r0 = 0.01\<close> and \<open>i_pack = [30, 31, 32]\<close>, last timestep: no
  operation signals, and the cell carries the float \<open>32.00000000000003\<close>.
\<close>

theorem single_cell_pack_witness:
  "(1::nat) \<le> 2 \<and> 2 < length [Num 30, Num 31, Num 32] \<and> [Num 30, Num 31, Num 32] ! 2 = Num 32 \<and>
   quiet_module [Num (4165829655317709 / 1125899906842624)]
     [Num (5764607523034235 / 576460752303423488)] (Num 32) \<and>
   (\<exists>y. i_cells64 1 1 [[Num (4165829655317709 / 1125899906842624)]]
          [[Num (5764607523034235 / 576460752303423488)]] [Num 30, Num 31, Num 32] ! 2 ! 0 ! 0 = Num y \<and>
        \<bar>y - 32\<bar> \<le> 32 / 10 ^ 9)"
proof -
  have o: "fin64 (37 / 10) = Num (4165829655317709 / 1125899906842624)"
    by (rule fin64_eqI [where e = "- 51"]; simp)
  have r: "fin64 (1 / 100) = Num (5764607523034235 / 576460752303423488)"
    by (rule fin64_eqI [where e = "- 59"]; simp)
  have h: "(1::nat) \<le> 2" "2 < length [Num 30, Num 31, Num 32]" "[Num 30, Num 31, Num 32] ! 2 = Num 32"
    by simp_all
  have q: "quiet_module [Num (4165829655317709 / 1125899906842624)]
     [Num (5764607523034235 / 576460752303423488)] (Num 32)"
    using single_cell_example(1) by (simp only: o r)
  from single_cell_pack [OF h q] obtain y where
    y: "i_cells64 1 1 [[Num (4165829655317709 / 1125899906842624)]]
          [[Num (5764607523034235 / 576460752303423488)]] [Num 30, Num 31, Num 32] ! 2 ! 0 ! 0 = Num y"
    and t: "\<bar>(4165829655317709 / 1125899906842624) / (5764607523034235 / 576460752303423488)\<bar>
              \<le> 10 ^ 5 * \<bar>32 :: real\<bar> \<longrightarrow> \<bar>y - 32\<bar> \<le> \<bar>32\<bar> / 10 ^ 9"
    by blast
  have "\<bar>(4165829655317709 / 1125899906842624) / (5764607523034235 / 576460752303423488)\<bar>
              \<le> 10 ^ 5 * \<bar>32 :: real\<bar>" by simp
  with t have "\<bar>y - 32\<bar> \<le> 32 / 10 ^ 9" by simp
  with y have "\<exists>y. i_cells64 1 1 [[Num (4165829655317709 / 1125899906842624)]]
          [[Num (5764607523034235 / 576460752303423488)]] [Num 30, Num 31, Num 32] ! 2 ! 0 ! 0 = Num y \<and>
        \<bar>y - 32\<bar> \<le> 32 / 10 ^ 9" by blast
  then show ?thesis
    using h q by blast
qed

text \<open>
  The claim as stated fails at timestep 0, which the loop skips: the cell carries 0 A
  while \<open>i_pack[0]\<close> is 30 A. It fails at the last timestep of \<open>i_pack = [30, 31, 32]\<close>,
  where rounding leaves the float \<open>32.00000000000003\<close>. And it fails for a cell of
  resistance zero, whose current is \<open>nan\<close>.
\<close>

theorem single_cell_pack_counterexample:
  "i_cells64 1 1 [[fin64 (37 / 10)]] [[fin64 (1 / 100)]] [Num 30, Num 31, Num 32] ! 0 ! 0 ! 0 = Num 0 \<and>
   Num 0 \<noteq> [Num 30, Num 31, Num 32] ! 0 \<and>
   i_cells64 1 1 [[fin64 (37 / 10)]] [[fin64 (1 / 100)]] [Num 30, Num 31, Num 32] ! 2 ! 0 ! 0 =
     Num (1125899906842625 / 35184372088832) \<and>
   Num (1125899906842625 / 35184372088832) \<noteq> [Num 30, Num 31, Num 32] ! 2 \<and>
   i_cells64 1 1 [[fin64 (37 / 10)]] [[Num 0]] [Num 30, Num 31, Num 32] ! 2 ! 0 ! 0 = NaN"
proof -
  have a: "i_cells64 1 1 [[fin64 (37 / 10)]] [[fin64 (1 / 100)]] [Num 30, Num 31, Num 32] ! 0 ! 0 ! 0 =
      Num 0"
    by (rule i_cells64_zero) simp_all
  have o: "fin64 (37 / 10) = Num (4165829655317709 / 1125899906842624)"
    by (rule fin64_eqI [where e = "- 51"]; simp)
  have h: "(1::nat) \<le> 2" "2 < length [Num 30, Num 31, Num 32]"
    by simp_all
  have sh: "has_shape 1 1 [[Num (4165829655317709 / 1125899906842624)]]" "has_shape 1 1 [[Num 0]]"
    by (simp_all add: has_shape_def)
  have c: "i_cells64 1 1 [[fin64 (37 / 10)]] [[Num 0]] [Num 30, Num 31, Num 32] ! 2 ! 0 ! 0 = NaN"
    unfolding o using i_cells64_entry [OF sh h, of 0 0] by (simp add: sum64_single)
  show ?thesis
    using a single_cell_example(2) c by simp
qed

text \<open>
  Claim C5. The loop skips timestep 0: after it, \<open>i_cells[0, m, p]\<close> is the zero that line
  77 stored, for every module \<open>m\<close> and cell \<open>p\<close>, whatever \<open>i_pack[0]\<close> and the grids are.
\<close>

theorem timestep_zero_skipped:
  assumes "ip \<noteq> []" and "m < ns" and "p < np"
  shows "i_cells (run_loop (init_state np ns z ocv r0 ip)) ! 0 ! m ! p = Fin 0"
  using assms by (simp add: run_i_cells_0 np_zeros2_def)

theorem timestep_zero_skipped_witness:
  "[30, 60 :: real] \<noteq> [] \<and> (1::nat) < 2 \<and> (2::nat) < 3 \<and>
   i_cells (run_loop (init_state 3 2 [] [[37/10, 18/5, 37/10], [37/10, 37/10, 7/2]]
      [[1/100, 1/100, 1/100], [1/100, 1/50, 1/100]] [30, 60])) ! 0 ! 1 ! 2 = Fin 0"
proof -
  have h: "[30, 60 :: real] \<noteq> []" "(1::nat) < 2" "(2::nat) < 3"
    by simp_all
  show ?thesis
    using h timestep_zero_skipped [OF h] by blast
qed

text \<open>
  Claim C6, as amended. The script validates no resistance and has no \<open>InvalidResistance\<close>
  failure. For an \<open>i_pack\<close> of at least one timestep, lines 71 to 83 return their arrays
  whatever the entries of \<open>r0_cells\<close> are, negative and zero ones included. In a module
  with a zero resistance every current is non-finite (\<open>inf\<close> or \<open>nan\<close>) at every timestep
  \<open>k \<ge> 1\<close>, stored without an error.
\<close>

theorem no_resistance_validation:
  assumes "ip \<noteq> []"
  shows "(\<exists>s g. pack_calculation np ns z ocv r0 ip = Inr (s, g)) \<and>
     (has_shape ns np ocv \<and> has_shape ns np r0 \<and> 1 \<le> k \<and> k < length ip \<and> m < ns \<and> p < np \<and>
      q < np \<and> r0 ! m ! q = 0 \<longrightarrow>
        i_cells (run_loop (init_state np ns z ocv r0 ip)) ! k ! m ! p = NonFin)"
proof (intro conjI impI)
  show "\<exists>s g. pack_calculation np ns z ocv r0 ip = Inr (s, g)"
    by (simp add: pack_calculation_Inr [OF assms])
next
  assume h: "has_shape ns np ocv \<and> has_shape ns np r0 \<and> 1 \<le> k \<and> k < length ip \<and> m < ns \<and> p < np \<and>
      q < np \<and> r0 ! m ! q = 0"
  show "i_cells (run_loop (init_state np ns z ocv r0 ip)) ! k ! m ! p = NonFin"
    using h by (intro run_i_cells_zero_resistance [of ns np ocv r0 k ip m p q]) simp_all
qed

text \<open>
  The theorem at a single cell of resistance zero: the calculation returns, and the
  current at timestep 1 is non-finite.
\<close>

theorem no_resistance_validation_witness:
  "[5, 7 :: real] \<noteq> [] \<and>
   pack_calculation 1 1 [[1]] [[3]] [[0]] [5, 7] \<noteq> Inl IndexError \<and>
   pack_calculation 1 1 [[1]] [[3]] [[0]] [5, 7] \<noteq> Inl ValueError \<and>
   has_shape 1 1 [[3 :: real]] \<and> has_shape 1 1 [[0 :: real]] \<and>
   [[0 :: real]] ! 0 ! 0 = 0 \<and>
   i_cells (run_loop (init_state 1 1 [[1]] [[3]] [[0]] [5, 7])) ! 1 ! 0 ! 0 = NonFin"
proof -
  have h: "[5, 7 :: real] \<noteq> []" by simp
  have sh: "has_shape 1 1 [[3 :: real]]" "has_shape 1 1 [[0 :: real]]"
    by (simp_all add: has_shape_def)
  note t = no_resistance_validation [OF h, of 1 1 "[[1]]" "[[3]]" "[[0]]" 1 0 0 0]
  have a: "pack_calculation 1 1 [[1]] [[3]] [[0]] [5, 7] \<noteq> Inl IndexError"
    "pack_calculation 1 1 [[1]] [[3]] [[0]] [5, 7] \<noteq> Inl ValueError"
    using t by auto
  have b: "i_cells (run_loop (init_state 1 1 [[1]] [[3]] [[0]] [5, 7])) ! 1 ! 0 ! 0 = NonFin"
    using t sh by simp
  show ?thesis
    using h a sh b by simp
qed

text \<open>
  The claim as stated fails: with the negative resistance \<open>-1\<close> the calculation returns
  the finite currents 0 and 7, and with the resistance 0 it returns a non-finite
  current; in neither case does it fail.
\<close>

theorem no_resistance_validation_counterexample:
  "map_sum id snd (pack_calculation 1 1 [[1]] [[3]] [[-1]] [5, 7]) = Inr [[Fin 0, Fin 7]] \<and>
   map_sum id snd (pack_calculation 1 1 [[1]] [[3]] [[0]] [5, 7]) = Inr [[Fin 0, NonFin]]"
proof -
  have h: "[5, 7 :: real] \<noteq> []" by simp
  have sh: "has_shape 1 1 [[3 :: real]]" "has_shape 1 1 [[-1 :: real]]" "has_shape 1 1 [[0 :: real]]"
    by (simp_all add: has_shape_def)
  have k: "(1::nat) \<le> 1" "1 < length [5, 7 :: real]" "(0::nat) < 1" "(0::nat) < 1"
    by simp_all
  have a0: "i_cells (run_loop (init_state 1 1 [[1]] [[3]] [[-1]] [5, 7])) ! 0 ! 0 ! 0 = Fin 0"
    and b0: "i_cells (run_loop (init_state 1 1 [[1]] [[3]] [[0]] [5, 7])) ! 0 ! 0 ! 0 = Fin 0"
    by (simp_all add: run_i_cells_0 np_zeros2_def)
  have v: "solve_v_modules (init_state 1 1 [[1]] [[3]] [[-1]] [5, 7]) 1 ! 0 = Fin 10"
    unfolding run_v_modules_np [OF sh(1,2) k(3)] by simp
  have a1: "i_cells (run_loop (init_state 1 1 [[1]] [[3]] [[-1]] [5, 7])) ! 1 ! 0 ! 0 = Fin 7"
    unfolding run_i_cells_np [OF sh(1,2) k] v by simp
  have b1: "i_cells (run_loop (init_state 1 1 [[1]] [[3]] [[0]] [5, 7])) ! 1 ! 0 ! 0 = NonFin"
    unfolding run_i_cells_np [OF sh(1,3) k] by (simp add: np_div_zero)
  show ?thesis
    unfolding pack_calculation_Inr [OF h]
    using a0 a1 b0 b1 by (simp add: np_transpose_120_def upt_rec)
qed

text \<open>
  Claim C7. The solver keeps no memory across timesteps. Take two runs of the loop on
  the same topology and the same grids \<open>ocv_cells\<close> and \<open>r0_cells\<close>, whatever their \<open>i_pack\<close>
  and whatever \<open>i_cells\<close> holds before the loop. If timestep \<open>k \<ge> 1\<close> of the first run and
  timestep \<open>j \<ge> 1\<close> of the second have the same pack current, the solved grids
  \<open>i_cells[k]\<close> and \<open>i_cells[j]\<close> are equal: the grid at a timestep depends on no other entry
  of \<open>i_pack\<close> and on no entry of \<open>i_cells\<close>. With one run for both, this is
  \<open>i_pack[k] = i_pack[j] \<Longrightarrow> i_cells[k] = i_cells[j]\<close>. Two grids are equal when their
  entries are the same numbers or are both non-finite.
\<close>

theorem solver_memoryless:
  assumes "n_parallel s = n_parallel s'" and "n_series s = n_series s'"
    and "ocv_cells s = ocv_cells s'" and "r0_cells s = r0_cells s'"
    and "1 \<le> k" and "k < length (i_pack s)" and "k < length (i_cells s)"
    and "1 \<le> j" and "j < length (i_pack s')" and "j < length (i_cells s')"
    and "i_pack s ! k = i_pack s' ! j"
  shows "i_cells (run_loop s) ! k = i_cells (run_loop s') ! j"
proof -
  have v: "solve_v_modules s k = solve_v_modules s' j"
    using assms(3,4,11) by (simp add: solve_v_modules_def)
  have g: "solve_i_cells s (solve_v_modules s k) = solve_i_cells s' (solve_v_modules s' j)"
    using assms(1-4) by (simp add: solve_i_cells_def v)
  have a: "i_cells (run_loop s) ! k = solve_i_cells s (solve_v_modules s k)"
    using run_loop_i_cells [OF assms(7)] assms(5,6) by simp
  have b: "i_cells (run_loop s') ! j = solve_i_cells s' (solve_v_modules s' j)"
    using run_loop_i_cells [OF assms(10)] assms(8,9) by simp
  show ?thesis
    by (simp only: a b g)
qed

text \<open>
  The theorem at one run with \<open>i_pack = [30, 60, 45, 60]\<close>, timesteps 1 and 3, and at
  two runs that differ in every other pack current.
\<close>

theorem solver_memoryless_witness:
  "i_cells (run_loop (init_state 3 2 [] [[37/10, 18/5, 37/10], [37/10, 37/10, 7/2]]
      [[1/100, 1/100, 1/100], [1/100, 1/50, 1/100]] [30, 60, 45, 60])) ! 1 =
   i_cells (run_loop (init_state 3 2 [] [[37/10, 18/5, 37/10], [37/10, 37/10, 7/2]]
      [[1/100, 1/100, 1/100], [1/100, 1/50, 1/100]] [30, 60, 45, 60])) ! 3 \<and>
   i_cells (run_loop (init_state 3 2 [] [[37/10, 18/5, 37/10], [37/10, 37/10, 7/2]]
      [[1/100, 1/100, 1/100], [1/100, 1/50, 1/100]] [30, 60, 45, 60])) ! 2 =
   i_cells (run_loop (init_state 3 2 [] [[37/10, 18/5, 37/10], [37/10, 37/10, 7/2]]
      [[1/100, 1/100, 1/100], [1/100, 1/50, 1/100]] [0, 45])) ! 1"
proof -
  let ?s = "init_state 3 2 [] [[37/10, 18/5, 37/10], [37/10, 37/10, 7/2]]
      [[1/100, 1/100, 1/100], [1/100, 1/50, 1/100]] [30, 60, 45, 60]"
  let ?s' = "init_state 3 2 [] [[37/10, 18/5, 37/10], [37/10, 37/10, 7/2]]
      [[1/100, 1/100, 1/100], [1/100, 1/50, 1/100]] [0, 45]"
  have a: "i_cells (run_loop ?s) ! 1 = i_cells (run_loop ?s) ! 3"
    by (rule solver_memoryless) (simp_all add: init_state_simps np_zeros3_def)
  have b: "i_cells (run_loop ?s) ! 2 = i_cells (run_loop ?s') ! 1"
    by (rule solver_memoryless) (simp_all add: init_state_simps np_zeros3_def)
  show ?thesis
    using a b by blast
qed




text \<open>
  Claim C9, as amended. When \<open>i_pack\<close> has at least one timestep, line 83 yields an array
  \<open>i_cells2\<close> of exactly \<open>n_series * n_parallel\<close> rows, each of length \<open>len(i_pack)\<close>, and
  row \<open>m * n_parallel + p\<close> is the current trace of cell \<open>(m, p)\<close>:
  \<open>i_cells2[m * n_parallel + p][t] = i_cells[t, m, p]\<close>. Every row \<open>c\<close> is the trace of
  exactly one cell, \<open>(c div n_parallel, c mod n_parallel)\<close>.
\<close>

theorem flat_cell_index:
  assumes "ip \<noteq> []"
  shows "\<exists>g. i_cells2 (run_loop (init_state np ns z ocv r0 ip)) = Inr g \<and>
     length g = ns * np \<and>
     (\<forall>row\<in>set g. length row = length ip) \<and>
     (\<forall>m<ns. \<forall>p<np. \<forall>t<length ip.
        g ! (m * np + p) ! t = i_cells (run_loop (init_state np ns z ocv r0 ip)) ! t ! m ! p) \<and>
     (\<forall>c<ns * np. c div np < ns \<and> c mod np < np \<and> c = (c div np) * np + c mod np \<and>
        (\<forall>t<length ip.
           g ! c ! t =
             i_cells (run_loop (init_state np ns z ocv r0 ip)) ! t ! (c div np) ! (c mod np)))"
proof -
  let ?a = "i_cells (run_loop (init_state np ns z ocv r0 ip))"
  let ?g = "concat (np_transpose_120 (length ip) ns np ?a)"
  have cell: "?g ! (m * np + p) ! t = ?a ! t ! m ! p"
    if "m < ns" and "p < np" and "t < length ip" for m p t
    using that by (simp add: transpose_120_nth)
  have idx: "c div np < ns \<and> c mod np < np \<and> c = (c div np) * np + c mod np"
    if "c < ns * np" for c
  proof -
    have "0 < np" using that by (cases np) simp_all
    then show ?thesis
      using that by (simp add: less_mult_imp_div_less)
  qed
  show ?thesis
  proof (intro exI conjI)
    show "i_cells2 (run_loop (init_state np ns z ocv r0 ip)) = Inr ?g"
      by (rule i_cells2_run [OF assms])
    show "length ?g = ns * np"
      by (rule transpose_120_length)
    show "\<forall>row\<in>set ?g. length row = length ip"
      by (rule transpose_120_rows)
    show "\<forall>m<ns. \<forall>p<np. \<forall>t<length ip. ?g ! (m * np + p) ! t = ?a ! t ! m ! p"
      using cell by blast
    show "\<forall>c<ns * np. c div np < ns \<and> c mod np < np \<and> c = (c div np) * np + c mod np \<and>
        (\<forall>t<length ip. ?g ! c ! t = ?a ! t ! (c div np) ! (c mod np))"
    proof (intro allI impI conjI)
      fix c assume c: "c < ns * np"
      show "c div np < ns" "c mod np < np" "c = (c div np) * np + c mod np"
        using idx [OF c] by simp_all
      fix t assume t: "t < length ip"
      have "?g ! ((c div np) * np + c mod np) ! t = ?a ! t ! (c div np) ! (c mod np)"
        using idx [OF c] t by (intro cell) simp_all
      then show "?g ! c ! t = ?a ! t ! (c div np) ! (c mod np)"
        by simp
    qed
  qed
qed

text \<open>
  The theorem at the pack of two modules of three unequal cells: the row of cell
  \<open>(1, 2)\<close> is row 5.
\<close>

theorem flat_cell_index_witness:
  "[30, 60 :: real] \<noteq> [] \<and>
   i_cells2 (run_loop (init_state 3 2 [] [[37/10, 18/5, 37/10], [37/10, 37/10, 7/2]]
      [[1/100, 1/100, 1/100], [1/100, 1/100, 1/100]] [30, 60])) \<noteq> Inl IndexError \<and>
   i_cells2 (run_loop (init_state 3 2 [] [[37/10, 18/5, 37/10], [37/10, 37/10, 7/2]]
      [[1/100, 1/100, 1/100], [1/100, 1/100, 1/100]] [30, 60])) \<noteq> Inl ValueError \<and>
   length (projr (i_cells2 (run_loop (init_state 3 2 [] [[37/10, 18/5, 37/10], [37/10, 37/10, 7/2]]
      [[1/100, 1/100, 1/100], [1/100, 1/100, 1/100]] [30, 60])))) = 6 \<and>
   projr (i_cells2 (run_loop (init_state 3 2 [] [[37/10, 18/5, 37/10], [37/10, 37/10, 7/2]]
      [[1/100, 1/100, 1/100], [1/100, 1/100, 1/100]] [30, 60]))) ! 5 ! 1 =
     i_cells (run_loop (init_state 3 2 [] [[37/10, 18/5, 37/10], [37/10, 37/10, 7/2]]
      [[1/100, 1/100, 1/100], [1/100, 1/100, 1/100]] [30, 60])) ! 1 ! 1 ! 2"
proof -
  let ?s = "run_loop (init_state 3 2 [] [[37/10, 18/5, 37/10], [37/10, 37/10, 7/2]]
      [[1/100, 1/100, 1/100], [1/100, 1/100, 1/100]] [30, 60])"
  have h: "[30, 60 :: real] \<noteq> []" by simp
  from flat_cell_index [OF h, of 3 2 "[]" "[[37/10, 18/5, 37/10], [37/10, 37/10, 7/2]]"
      "[[1/100, 1/100, 1/100], [1/100, 1/100, 1/100]]"]
  obtain g where g: "i_cells2 ?s = Inr g" and l: "length g = 2 * 3"
    and c: "\<forall>m<2. \<forall>p<3. \<forall>t<length [30, 60 :: real]. g ! (m * 3 + p) ! t = i_cells ?s ! t ! m ! p"
    by blast
  have "(1::nat) < 2 \<longrightarrow> (2::nat) < 3 \<longrightarrow> (1::nat) < length [30, 60 :: real] \<longrightarrow>
      g ! (1 * 3 + 2) ! 1 = i_cells ?s ! 1 ! 1 ! 2"
    using c by blast
  then have e: "g ! 5 ! 1 = i_cells ?s ! 1 ! 1 ! 2"
    by simp
  show ?thesis
    using h l e by (simp add: g)
qed

text \<open>
  The claim as stated fails for an \<open>i_pack\<close> of no timestep: \<open>i_cells[0]\<close> raises
  \<open>IndexError\<close> and no \<open>i_cells2\<close> is produced.
\<close>

theorem flat_cell_index_counterexample:
  "i_cells2 (run_loop (init_state 3 2 [] [[37/10, 18/5, 37/10], [37/10, 37/10, 7/2]]
      [[1/100, 1/100, 1/100], [1/100, 1/100, 1/100]] [])) = Inl IndexError"
  by (simp add: i_cells2_def run_loop_def init_state_def np_zeros3_def)



end
